theory Spec2Isabelle
  imports Complex_Main "HOL-Library.Word" "HOL-Library.Multiset"
begin

unbundle bit_operations_syntax

section \<open>JavaScript values\<close>

text \<open>
  The fields of the program's object literals hold JavaScript numbers. In the functions
  modelled here they are integers, \<open>NaN\<close> (from \<open>0 / 0\<close>, \<open>n % 0\<close> or arithmetic on
  \<open>undefined\<close>) or \<open>undefined\<close> (a read past the end of an array). Integers are exact
  in a double up to \<open>2 ^ 53\<close>; the model keeps them as \<open>int\<close>.
\<close>

datatype jsval = Num int | NaN | Undefined

text \<open>\<open>a + b\<close> and \<open>a * b\<close>: \<open>undefined\<close> converts to \<open>NaN\<close>, and \<open>NaN\<close> propagates.\<close>

fun js_add :: "jsval \<Rightarrow> jsval \<Rightarrow> jsval" where
  "js_add (Num a) (Num b) = Num (a + b)"
| "js_add _ _ = NaN"

fun js_mul :: "jsval \<Rightarrow> jsval \<Rightarrow> jsval" where
  "js_mul (Num a) (Num b) = Num (a * b)"
| "js_mul _ _ = NaN"

text \<open>\<open>a > b\<close> and \<open>a < b\<close>: false as soon as one side is \<open>NaN\<close> or \<open>undefined\<close>.\<close>

fun js_gt :: "jsval \<Rightarrow> jsval \<Rightarrow> bool" where
  "js_gt (Num a) (Num b) = (a > b)"
| "js_gt _ _ = False"

fun js_lt :: "jsval \<Rightarrow> jsval \<Rightarrow> bool" where
  "js_lt (Num a) (Num b) = (a < b)"
| "js_lt _ _ = False"

text \<open>\<open>a == 0\<close>, as \<open>unpack\<close> tests a palette index.\<close>

fun js_is_zero :: "jsval \<Rightarrow> bool" where
  "js_is_zero (Num a) = (a = 0)"
| "js_is_zero _ = False"

text \<open>
  The conversions of the bitwise operators (\<open>ToInt32\<close>) and of \<open>Uint8Array.from\<close>
  (\<open>ToUint8\<close>): an integer wraps around, \<open>NaN\<close> and \<open>undefined\<close> become 0.
\<close>

fun toInt32 :: "jsval \<Rightarrow> 32 word" where
  "toInt32 (Num a) = word_of_int a"
| "toInt32 _ = 0"

fun toUint8 :: "jsval \<Rightarrow> 8 word" where
  "toUint8 (Num a) = word_of_int a"
| "toUint8 _ = 0"

text \<open>The counter values of \<open>for(let i = 0; i < n; i++)\<close>: none unless \<open>n\<close> is a positive number.\<close>

fun js_range :: "jsval \<Rightarrow> int list" where
  "js_range (Num n) = map int [0..<nat n]"
| "js_range _ = []"

section \<open>Typed arrays\<close>

text \<open>A \<open>Uint8Array\<close> is a list of bytes; \<open>a[i]\<close> is \<open>undefined\<close> outside of it.\<close>

fun u8get :: "8 word list \<Rightarrow> jsval \<Rightarrow> jsval" where
  "u8get bs (Num i) = (if 0 \<le> i \<and> nat i < length bs then Num (uint (bs ! nat i)) else Undefined)"
| "u8get bs _ = Undefined"



section \<open>Colours, packed images and failures\<close>

record dims =
  width :: jsval
  height :: jsval

record colour =
  col_r :: jsval
  col_g :: jsval
  col_b :: jsval

record packed_pixel =
  pp_x :: jsval
  pp_y :: jsval
  pp_index :: jsval

record packed_box =
  pb_x :: jsval
  pb_y :: jsval
  pb_light :: colour
  pb_dark :: colour
  pb_data :: "packed_pixel list"

record packed_image =
  p_size :: dims
  p_boxSize :: jsval
  p_data :: "packed_box list"

text \<open>
  \<open>process.exit()\<close> after a message on \<open>console.error\<close> ends the run with no result;
  the model returns the kind of failure. \<open>RangeError\<close> is the exception of
  \<open>new Array(n)\<close> for an \<open>n\<close> that is no array length.
\<close>

datatype error = FieldOverflow | FormatError | InvalidParameter | RangeError

section \<open>boxify\<close>

text \<open>
  \<open>a - b\<close>, \<open>a % b\<close> and \<open>a / b\<close>. The remainder has the sign of the dividend and is
  \<open>NaN\<close> for a zero divisor. The values of \<open>jsval\<close> hold no fraction and no infinity:
  \<open>js_div\<close> is the quotient where the divisor is not zero and divides the dividend, and
  \<open>NaN\<close> where an operand is no number; it gives \<open>NaN\<close> for any other quotient too,
  which \<open>boxify\<close> never takes (it divides multiples of \<open>boxSize\<close> by \<open>boxSize\<close>, and
  by zero only \<open>NaN\<close>). The sign of a zero is not kept.
\<close>

fun js_sub :: "jsval \<Rightarrow> jsval \<Rightarrow> jsval" where
  "js_sub (Num a) (Num b) = Num (a - b)"
| "js_sub _ _ = NaN"

fun js_rem :: "jsval \<Rightarrow> jsval \<Rightarrow> jsval" where
  "js_rem (Num a) (Num b) = (if b = 0 then NaN else Num (sgn a * (\<bar>a\<bar> mod \<bar>b\<bar>)))"
| "js_rem _ _ = NaN"

fun js_div :: "jsval \<Rightarrow> jsval \<Rightarrow> jsval" where
  "js_div (Num a) (Num b) = (if b \<noteq> 0 \<and> b dvd a then Num (a div b) else NaN)"
| "js_div _ _ = NaN"

text \<open>A decoded image: \<open>width\<close>, \<open>height\<close> and the RGBA bytes of \<open>data\<close>.\<close>

record image =
  i_width :: nat
  i_height :: nat
  i_data :: "8 word list"

record pixel =
  px_x :: jsval
  px_y :: jsval
  px_color :: colour

record box =
  bx_x :: jsval
  bx_y :: jsval
  bx_data :: "pixel list"

record boxed_image =
  b_size :: dims
  b_boxSize :: jsval
  b_data :: "box list"

text \<open>The pixel that the two inner loops push for local coordinates \<open>x\<close> and \<open>y\<close>.\<close>

definition make_pixel :: "image \<Rightarrow> jsval \<Rightarrow> jsval \<Rightarrow> int \<Rightarrow> int \<Rightarrow> pixel" where
  "make_pixel img xStart yStart x y =
     (let realY = js_add yStart (Num y);
          realX = js_add xStart (Num x);
          index = js_add (js_mul realY (Num (int (i_width img)))) realX
      in \<lparr>px_x = Num x, px_y = Num y,
          px_color = \<lparr>col_r = u8get (i_data img) (js_mul index (Num 4)),
                       col_g = u8get (i_data img) (js_add (js_mul index (Num 4)) (Num 1)),
                       col_b = u8get (i_data img) (js_add (js_mul index (Num 4)) (Num 2))\<rparr>\<rparr>)"

text \<open>The box that the body of the \<open>xStart\<close> loop pushes.\<close>

definition make_box :: "image \<Rightarrow> jsval \<Rightarrow> jsval \<Rightarrow> jsval \<Rightarrow> box" where
  "make_box img boxSize xStart yStart =
     \<lparr>bx_x = js_div xStart boxSize, bx_y = js_div yStart boxSize,
      bx_data = concat (map (\<lambda>y. map (\<lambda>x. make_pixel img xStart yStart x y)
                  (js_range boxSize)) (js_range boxSize))\<rparr>"

text \<open>
  The loops over \<open>xStart\<close> and \<open>yStart\<close> step by \<open>boxSize\<close> and need not end: a run that
  does not return is \<open>None\<close>.
\<close>

partial_function (option) x_loop ::
  "image \<Rightarrow> jsval \<Rightarrow> jsval \<Rightarrow> jsval \<Rightarrow> jsval \<Rightarrow> box list \<Rightarrow> box list option" where
  "x_loop img boxSize size_width yStart xStart data =
     (if js_lt xStart size_width
      then x_loop img boxSize size_width yStart (js_add xStart boxSize)
             (data @ [make_box img boxSize xStart yStart])
      else Some data)"

partial_function (option) y_loop ::
  "image \<Rightarrow> jsval \<Rightarrow> dims \<Rightarrow> jsval \<Rightarrow> box list \<Rightarrow> box list option" where
  "y_loop img boxSize sz yStart data =
     (if js_lt yStart (height sz)
      then Option.bind (x_loop img boxSize (width sz) yStart (Num 0) data)
             (\<lambda>data'. y_loop img boxSize sz (js_add yStart boxSize) data')
      else Some data)"

definition boxify :: "image \<Rightarrow> jsval \<Rightarrow> boxed_image option" where
  "boxify img boxSize =
     (let sz = \<lparr>width = js_sub (Num (int (i_width img)))
                            (js_rem (Num (int (i_width img))) boxSize),
                  height = js_sub (Num (int (i_height img)))
                            (js_rem (Num (int (i_height img))) boxSize)\<rparr>
      in Option.bind (y_loop img boxSize sz (Num 0) [])
           (\<lambda>data. Some \<lparr>b_size = \<lparr>width = js_div (width sz) boxSize,
                                    height = js_div (height sz) boxSize\<rparr>,
                         b_boxSize = boxSize, b_data = data\<rparr>))"

text \<open>
  \<open>compress\<close> up to the call of \<open>boxify\<close>: it stops with a message when \<open>boxSize\<close> is
  falsy (0, \<open>NaN\<close> or \<open>undefined\<close>); otherwise the decoded image goes to \<open>boxify\<close>.
\<close>

fun js_falsy :: "jsval \<Rightarrow> bool" where
  "js_falsy (Num a) = (a = 0)"
| "js_falsy _ = True"

definition compress_boxify :: "image \<Rightarrow> jsval \<Rightarrow> (error + boxed_image) option" where
  "compress_boxify img boxSize =
     (if js_falsy boxSize then Some (Inl InvalidParameter)
      else map_option Inr (boxify img boxSize))"

text \<open>The coordinates of a grid of \<open>n\<close> columns and \<open>m\<close> rows in row-major order.\<close>

definition row_major_coords :: "nat \<Rightarrow> nat \<Rightarrow> (jsval \<times> jsval) list" where
  "row_major_coords n m = concat (map (\<lambda>j. map (\<lambda>i. (Num (int i), Num (int j))) [0..<n]) [0..<m])"

section \<open>getLuminance and pack\<close>

text \<open>
  The luminance is computed in double precision. A double is a real number or \<open>NaN\<close>
  (no infinity arises here), and every arithmetic operation returns the rounding of the
  exact result. The rounding to the nearest double is the parameter \<open>fl\<close> of the model;
  a property that depends on rounding states what it needs of \<open>fl\<close>. \<open>Math.sqrt\<close> is
  taken as correctly rounded, as the engines compute it.
\<close>

datatype double = D real | DNaN

text \<open>
  \<open>a + b\<close>, \<open>a >= b\<close> and \<open>a / n\<close> for an array length \<open>n\<close>. A comparison with \<open>NaN\<close>
  is false. \<open>0 / 0\<close> is \<open>NaN\<close>; the divisor is zero only where the dividend is (an empty
  box has the sum 0), so no quotient is infinite.
\<close>

fun d_add :: "(real \<Rightarrow> real) \<Rightarrow> double \<Rightarrow> double \<Rightarrow> double" where
  "d_add fl (D a) (D b) = D (fl (a + b))"
| "d_add fl _ _ = DNaN"

fun d_ge :: "double \<Rightarrow> double \<Rightarrow> bool" where
  "d_ge (D a) (D b) = (a \<ge> b)"
| "d_ge _ _ = False"

fun d_div :: "(real \<Rightarrow> real) \<Rightarrow> double \<Rightarrow> nat \<Rightarrow> double" where
  "d_div fl (D a) n = (if n = 0 then DNaN else D (fl (a / real n)))"
| "d_div fl DNaN n = DNaN"

text \<open>
  \<open>Math.sqrt((0.241 * r * r) + (0.691 * g * g) + (0.068 * b * b)) / 255\<close>, with the
  rounding after every operation and of the three literals; \<open>NaN\<close> when a component is
  no number.
\<close>

definition luminance :: "(real \<Rightarrow> real) \<Rightarrow> int \<Rightarrow> int \<Rightarrow> int \<Rightarrow> real" where
  "luminance fl r g b =
     fl (fl (sqrt (fl (fl (fl (fl (fl 0.241 * real_of_int r) * real_of_int r)
                           + fl (fl (fl 0.691 * real_of_int g) * real_of_int g))
                       + fl (fl (fl 0.068 * real_of_int b) * real_of_int b)))) / 255)"

definition getLuminance :: "(real \<Rightarrow> real) \<Rightarrow> colour \<Rightarrow> double" where
  "getLuminance fl color =
     (case (col_r color, col_g color, col_b color) of
        (Num r, Num g, Num b) \<Rightarrow> D (luminance fl r g b)
      | _ \<Rightarrow> DNaN)"

text \<open>\<open>box.data.reduce((accumulator, current) => accumulator + getLuminance(current.color), 0)\<close>\<close>

definition totalLuminance :: "(real \<Rightarrow> real) \<Rightarrow> box \<Rightarrow> double" where
  "totalLuminance fl box =
     fold (\<lambda>current accumulator. d_add fl accumulator (getLuminance fl (px_color current)))
       (bx_data box) (D 0)"

definition averageLuminance :: "(real \<Rightarrow> real) \<Rightarrow> box \<Rightarrow> double" where
  "averageLuminance fl box = d_div fl (totalLuminance fl box) (length (bx_data box))"

text \<open>The sums \<open>totals.light\<close> and \<open>totals.dark\<close>, and one step of the loop that fills them.\<close>

record total =
  t_r :: jsval
  t_g :: jsval
  t_b :: jsval
  t_n :: nat

record totals =
  light :: total
  dark :: total

definition add_pixel :: "pixel \<Rightarrow> total \<Rightarrow> total" where
  "add_pixel pixel t =
     \<lparr>t_r = js_add (t_r t) (col_r (px_color pixel)),
      t_g = js_add (t_g t) (col_g (px_color pixel)),
      t_b = js_add (t_b t) (col_b (px_color pixel)),
      t_n = t_n t + 1\<rparr>"

definition is_light :: "(real \<Rightarrow> real) \<Rightarrow> box \<Rightarrow> pixel \<Rightarrow> bool" where
  "is_light fl box pixel = d_ge (getLuminance fl (px_color pixel)) (averageLuminance fl box)"

definition box_totals :: "(real \<Rightarrow> real) \<Rightarrow> box \<Rightarrow> totals" where
  "box_totals fl box =
     fold (\<lambda>pixel ts.
             if is_light fl box pixel then ts\<lparr>light := add_pixel pixel (light ts)\<rparr>
             else ts\<lparr>dark := add_pixel pixel (dark ts)\<rparr>)
       (bx_data box)
       \<lparr>light = \<lparr>t_r = Num 0, t_g = Num 0, t_b = Num 0, t_n = 0\<rparr>,
        dark = \<lparr>t_r = Num 0, t_g = Num 0, t_b = Num 0, t_n = 0\<rparr>\<rparr>"

text \<open>
  \<open>Math.floor(sum / n)\<close>: \<open>NaN\<close> for \<open>0 / 0\<close> (a partition without pixels has the sum
  0) and for a sum that is no number.
\<close>

fun floor_div :: "(real \<Rightarrow> real) \<Rightarrow> jsval \<Rightarrow> nat \<Rightarrow> jsval" where
  "floor_div fl (Num s) n = (if n = 0 then NaN else Num \<lfloor>fl (real_of_int s / real n)\<rfloor>)"
| "floor_div fl _ n = NaN"

definition mean_colour :: "(real \<Rightarrow> real) \<Rightarrow> total \<Rightarrow> colour" where
  "mean_colour fl t =
     \<lparr>col_r = floor_div fl (t_r t) (t_n t), col_g = floor_div fl (t_g t) (t_n t),
      col_b = floor_div fl (t_b t) (t_n t)\<rparr>"

definition pack_box :: "(real \<Rightarrow> real) \<Rightarrow> box \<Rightarrow> packed_box" where
  "pack_box fl box =
     \<lparr>pb_x = bx_x box, pb_y = bx_y box,
      pb_light = mean_colour fl (light (box_totals fl box)),
      pb_dark = mean_colour fl (dark (box_totals fl box)),
      pb_data = map (\<lambda>pixel. \<lparr>pp_x = px_x pixel, pp_y = px_y pixel,
                                pp_index = (if is_light fl box pixel then Num 1 else Num 0)\<rparr>)
                  (bx_data box)\<rparr>"

definition pack :: "(real \<Rightarrow> real) \<Rightarrow> boxed_image \<Rightarrow> packed_image" where
  "pack fl boxed =
     \<lparr>p_size = b_size boxed, p_boxSize = b_boxSize boxed,
      p_data = map (pack_box fl) (b_data boxed)\<rparr>"

text \<open>A colour whose three components are numbers.\<close>

fun is_num :: "jsval \<Rightarrow> bool" where
  "is_num (Num a) = True"
| "is_num _ = False"

definition numeric_colour :: "colour \<Rightarrow> bool" where
  "numeric_colour c = (is_num (col_r c) \<and> is_num (col_g c) \<and> is_num (col_b c))"

text \<open>
  A value within \<open>k\<close> roundings of a constant \<open>K\<close>, each rounding with a relative error
  of at most \<open>u\<close>.
\<close>

definition rounded :: "real \<Rightarrow> real \<Rightarrow> nat \<Rightarrow> real \<Rightarrow> bool" where
  "rounded u K k x = (K * (1 - u) ^ k \<le> x \<and> x \<le> K * (1 + u) ^ k)"

text \<open>
  The rounding of IEEE 754 double precision, to the nearest double and to the even one of
  two nearest: a number \<open>x\<close> with \<open>2\<^sup>e \<le> \<bar>x\<bar> < 2\<^sup>e\<^sup>+\<^sup>1\<close> is rounded to a multiple of
  \<open>2\<^sup>e\<^sup>-\<^sup>5\<^sup>2\<close>. Overflow and subnormal numbers are left out: the luminances and their sums
  are far from both.
\<close>

definition round_half_even :: "real \<Rightarrow> int" where
  "round_half_even y =
     (if y - real_of_int \<lfloor>y\<rfloor> < 1 / 2 then \<lfloor>y\<rfloor>
      else if 1 / 2 < y - real_of_int \<lfloor>y\<rfloor> then \<lfloor>y\<rfloor> + 1
      else if even \<lfloor>y\<rfloor> then \<lfloor>y\<rfloor> else \<lfloor>y\<rfloor> + 1)"

definition binary64 :: "real \<Rightarrow> real" where
  "binary64 x =
     (if x = 0 then 0
      else real_of_int (round_half_even (x / 2 powr real_of_int (\<lfloor>log 2 \<bar>x\<bar>\<rfloor> - 52)))
             * 2 powr real_of_int (\<lfloor>log 2 \<bar>x\<bar>\<rfloor> - 52))"

text \<open>
  The mean of a list of numbers as double arithmetic computes it: the sum from left to
  right, then the division by the length, with a rounding after every operation. With
  exact arithmetic it is the arithmetic mean.
\<close>

definition rounded_mean :: "(real \<Rightarrow> real) \<Rightarrow> real list \<Rightarrow> real" where
  "rounded_mean fl ls = fl (foldl (\<lambda>s l. fl (s + l)) 0 ls / real (length ls))"

section \<open>unpack\<close>

text \<open>
  An ordinary array is a list of values; an element that was never written reads as
  \<open>undefined\<close>. \<open>new Array(n)\<close> throws a \<open>RangeError\<close> unless \<open>n\<close> is an integer
  from 0 to \<open>2\<^sup>3\<^sup>2 - 1\<close>. \<open>a[i] = v\<close> writes element \<open>i\<close> when \<open>i\<close> is an array index
  (an integer from 0 to \<open>2\<^sup>3\<^sup>2 - 2\<close>), growing the array when \<open>i\<close> is past its end;
  for any other \<open>i\<close> it sets a named property and no element changes.
\<close>

definition new_array_length :: "jsval \<Rightarrow> nat option" where
  "new_array_length n =
     (case n of Num k \<Rightarrow> (if 0 \<le> k \<and> k \<le> 4294967295 then Some (nat k) else None)
      | _ \<Rightarrow> None)"

text \<open>
  \<open>new Array(n).fill(0)\<close> stores a value in every one of the \<open>n\<close> slots. An engine
  holds only so many stored elements in one array and throws a \<open>RangeError\<close> beyond
  that, on current engines well below \<open>2\<^sup>3\<^sup>2 - 1\<close>. This capacity is a constant of the
  engine, not of the program: it is the parameter \<open>cap\<close> of the model. The result is
  the length of the filled array.
\<close>

definition filled_array :: "nat \<Rightarrow> jsval \<Rightarrow> nat option" where
  "filled_array cap n =
     (case new_array_length n of
        None \<Rightarrow> None
      | Some k \<Rightarrow> (if k \<le> cap then Some k else None))"

fun js_set :: "jsval list \<Rightarrow> jsval \<Rightarrow> jsval \<Rightarrow> jsval list" where
  "js_set xs (Num i) v =
     (if 0 \<le> i \<and> i < 4294967295
      then (if nat i < length xs then xs[nat i := v]
            else xs @ replicate (nat i - length xs) Undefined @ [v])
      else xs)"
| "js_set xs _ v = xs"

text \<open>The result of \<open>unpack\<close>: the bitmap's \<open>width\<close>, \<open>height\<close> and \<open>data\<close>.\<close>

record bitmap =
  bm_width :: jsval
  bm_height :: jsval
  bm_data :: "jsval list"

text \<open>\<open>.map((_, index) => index % 4 == 3 ? 255 : 0)\<close> on the filled array of \<open>n\<close> elements.\<close>

definition blank :: "nat \<Rightarrow> jsval list" where
  "blank n = map (\<lambda>index. if index mod 4 = 3 then Num 255 else Num 0) [0..<n]"

text \<open>The body of the inner loop: the four writes for one pixel of one box.\<close>

definition unpack_pixel :: "jsval \<Rightarrow> jsval \<Rightarrow> packed_box \<Rightarrow> packed_pixel \<Rightarrow> jsval list \<Rightarrow> jsval list" where
  "unpack_pixel width_px boxSize box pixel imageData =
     (let x = js_add (js_mul (pb_x box) boxSize) (pp_x pixel);
          y = js_add (js_mul (pb_y box) boxSize) (pp_y pixel);
          realY = js_mul width_px y;
          index = js_mul (js_add realY x) (Num 4);
          color = (if js_is_zero (pp_index pixel) then pb_dark box else pb_light box);
          d0 = js_set imageData index (col_r color);
          d1 = js_set d0 (js_add index (Num 1)) (col_g color);
          d2 = js_set d1 (js_add index (Num 2)) (col_b color)
      in js_set d2 (js_add index (Num 3)) (Num 255))"

text \<open>\<open>unpack\<close> on an engine whose arrays hold \<open>cap\<close> stored elements.\<close>

definition unpack :: "nat \<Rightarrow> packed_image \<Rightarrow> error + bitmap" where
  "unpack cap p =
     (let width_px = js_mul (width (p_size p)) (p_boxSize p);
          height_px = js_mul (height (p_size p)) (p_boxSize p)
      in case filled_array cap (js_mul (js_mul width_px height_px) (Num 4)) of
           None \<Rightarrow> Inl RangeError
         | Some n \<Rightarrow>
             Inr \<lparr>bm_width = width_px, bm_height = height_px,
                  bm_data = fold (\<lambda>box. fold (unpack_pixel width_px (p_boxSize p) box) (pb_data box))
                              (p_data p) (blank n)\<rparr>)"

section \<open>serialiseFromPacked\<close>

definition MAGIC :: "int list" where
  "MAGIC = [99, 115, 113, 47, 113, 105, 109, 103]"

definition version :: "int list" where
  "version = [0, 1]"

text \<open>
  \<open>[(n & (0xFF << 16)) >> 16, (n & (0xFF << 8)) >> 8, n & 0xFF]\<close> on 32-bit signed
  integers, for \<open>n = data.length\<close>.
\<close>

definition dataLength_bytes :: "nat \<Rightarrow> jsval list" where
  "dataLength_bytes n =
     (let w = toInt32 (Num (int n)) in
      [Num (sint (signed_drop_bit 16 (w AND push_bit 16 (0xFF :: 32 word)))),
       Num (sint (signed_drop_bit 8 (w AND push_bit 8 (0xFF :: 32 word)))),
       Num (sint (w AND (0xFF :: 32 word)))])"

text \<open>The values one box pushes: coordinates, light, dark, then every pixel's index.\<close>

definition box_values :: "packed_box \<Rightarrow> jsval list" where
  "box_values box =
     [pb_x box, pb_y box,
      col_r (pb_light box), col_g (pb_light box), col_b (pb_light box),
      col_r (pb_dark box), col_g (pb_dark box), col_b (pb_dark box)]
     @ map pp_index (pb_data box)"

definition serialiseFromPacked :: "packed_image \<Rightarrow> error + 8 word list" where
  "serialiseFromPacked p =
     (if js_gt (p_boxSize p) (Num 255) \<or> js_gt (width (p_size p)) (Num 255)
         \<or> js_gt (height (p_size p)) (Num 255)
      then Inl FieldOverflow
      else Inr (map toUint8
        (map Num MAGIC @ map Num version
         @ [p_boxSize p, width (p_size p), height (p_size p)]
         @ dataLength_bytes (length (p_data p))
         @ concat (map box_values (p_data p)))))"

section \<open>deserialiseIntoPacked\<close>






section \<open>Well-formed byte streams and byte-ranged packed images\<close>

text \<open>A number that one byte holds.\<close>

fun is_byte :: "jsval \<Rightarrow> bool" where
  "is_byte (Num n) = (0 \<le> n \<and> n \<le> 255)"
| "is_byte _ = False"







section \<open>Absolute positions of the packed pixels\<close>

text \<open>The \<open>x\<close> and \<open>y\<close> that \<open>unpack\<close> computes for one pixel of one box.\<close>

definition position :: "jsval \<Rightarrow> packed_box \<Rightarrow> packed_pixel \<Rightarrow> jsval \<times> jsval" where
  "position boxSize box pixel =
     (js_add (js_mul (pb_x box) boxSize) (pp_x pixel),
      js_add (js_mul (pb_y box) boxSize) (pp_y pixel))"

text \<open>
  The number \<open>realY + x\<close> of the pixel in the buffer: \<open>unpack\<close> writes the elements
  \<open>4 * number\<close> to \<open>4 * number + 3\<close>.
\<close>

definition pixel_number :: "jsval \<Rightarrow> jsval \<Rightarrow> packed_box \<Rightarrow> packed_pixel \<Rightarrow> jsval" where
  "pixel_number width_px boxSize box pixel =
     js_add (js_mul width_px (snd (position boxSize box pixel))) (fst (position boxSize box pixel))"

text \<open>The pairs of a box and one of its pixels, in the order the loops visit them.\<close>

definition entries :: "packed_image \<Rightarrow> (packed_box \<times> packed_pixel) list" where
  "entries p = concat (map (\<lambda>box. map (Pair box) (pb_data box)) (p_data p))"

text \<open>The pixel numbers of all entries, in that order.\<close>

definition numbers :: "packed_image \<Rightarrow> jsval list" where
  "numbers p =
     map (\<lambda>(box, q). pixel_number (js_mul (width (p_size p)) (p_boxSize p)) (p_boxSize p) box q)
       (entries p)"

text \<open>The four channel values of pixel \<open>(X, Y)\<close> in a row-major RGBA buffer of width \<open>W\<close>.\<close>

definition pixel_at :: "int \<Rightarrow> jsval list \<Rightarrow> int \<Rightarrow> int \<Rightarrow> jsval list" where
  "pixel_at W buffer X Y = take 4 (drop (nat ((Y * W + X) * 4)) buffer)"

text \<open>The colour an index selects in its box, with full alpha.\<close>

definition selected :: "packed_box \<Rightarrow> packed_pixel \<Rightarrow> jsval list" where
  "selected box pixel =
     (let color = (if js_is_zero (pp_index pixel) then pb_dark box else pb_light box)
      in [col_r color, col_g color, col_b color, Num 255])"

section \<open>Element writes\<close>

text \<open>
  The pixel loop of \<open>unpack\<close> is a list of element writes \<open>a[i] = v\<close> applied in order:
  four for every entry, at the index \<open>4 * number\<close> and the three after it.
\<close>

definition element_writes :: "jsval \<Rightarrow> jsval list \<Rightarrow> (jsval \<times> jsval) list" where
  "element_writes number c =
     [(js_mul number (Num 4), c ! 0), (js_add (js_mul number (Num 4)) (Num 1), c ! 1),
      (js_add (js_mul number (Num 4)) (Num 2), c ! 2), (js_add (js_mul number (Num 4)) (Num 3), c ! 3)]"

definition run_writes :: "(jsval \<times> jsval) list \<Rightarrow> jsval list \<Rightarrow> jsval list" where
  "run_writes ws xs = fold (\<lambda>(i, v) ys. js_set ys i v) ws xs"

definition all_writes :: "jsval \<Rightarrow> jsval \<Rightarrow> (packed_box \<times> packed_pixel) list \<Rightarrow> (jsval \<times> jsval) list" where
  "all_writes width_px boxSize es =
     concat (map (\<lambda>(box, q). element_writes (pixel_number width_px boxSize box q) (selected box q)) es)"

text \<open>
  The element that \<open>a[i] = v\<close> writes, if any; the writes of a list that write an element;
  writing element \<open>k\<close> of a list, and reading it.
\<close>

fun key :: "jsval \<Rightarrow> nat option" where
  "key (Num i) = (if 0 \<le> i \<and> i < 4294967295 then Some (nat i) else None)"
| "key _ = None"

definition keyed :: "(jsval \<times> 'a) list \<Rightarrow> (nat \<times> 'a) list" where
  "keyed ws = concat (map (\<lambda>(i, v). case key i of Some k \<Rightarrow> [(k, v)] | None \<Rightarrow> []) ws)"

definition set_at :: "jsval list \<Rightarrow> nat \<Rightarrow> jsval \<Rightarrow> jsval list" where
  "set_at xs k v =
     (if k < length xs then xs[k := v] else xs @ replicate (k - length xs) Undefined @ [v])"

definition js_get :: "jsval list \<Rightarrow> nat \<Rightarrow> jsval" where
  "js_get xs k = (if k < length xs then xs ! k else Undefined)"

section \<open>Example images\<close>

text \<open>One box of \<open>2 \<times> 2\<close> pixels in a grid of one tile.\<close>

definition layout_example :: packed_image where
  "layout_example = \<lparr>p_size = \<lparr>width = Num 1, height = Num 1\<rparr>, p_boxSize = Num 2,
     p_data = [
       \<lparr>pb_x = Num 0, pb_y = Num 0,
        pb_light = \<lparr>col_r = Num 200, col_g = Num 210, col_b = Num 220\<rparr>,
        pb_dark = \<lparr>col_r = Num 10, col_g = Num 20, col_b = Num 30\<rparr>,
        pb_data = [\<lparr>pp_x = Num 0, pp_y = Num 0, pp_index = Num 1\<rparr>,
                   \<lparr>pp_x = Num 1, pp_y = Num 0, pp_index = Num 0\<rparr>,
                   \<lparr>pp_x = Num 0, pp_y = Num 1, pp_index = Num 0\<rparr>,
                   \<lparr>pp_x = Num 1, pp_y = Num 1, pp_index = Num 1\<rparr>]\<rparr>]\<rparr>"


text \<open>
  Three tiles of one pixel in a row, with boxes for the tiles 2 and 0 only, listed out of
  grid order; the same image with the two boxes swapped.
\<close>

definition box_right :: packed_box where
  "box_right = \<lparr>pb_x = Num 2, pb_y = Num 0,
      pb_light = \<lparr>col_r = Num 200, col_g = Num 210, col_b = Num 220\<rparr>,
      pb_dark = \<lparr>col_r = Num 10, col_g = Num 20, col_b = Num 30\<rparr>,
      pb_data = [\<lparr>pp_x = Num 0, pp_y = Num 0, pp_index = Num 0\<rparr>]\<rparr>"

definition box_left :: packed_box where
  "box_left = \<lparr>pb_x = Num 0, pb_y = Num 0,
      pb_light = \<lparr>col_r = Num 90, col_g = Num 80, col_b = Num 70\<rparr>,
      pb_dark = \<lparr>col_r = Num 1, col_g = Num 2, col_b = Num 3\<rparr>,
      pb_data = [\<lparr>pp_x = Num 0, pp_y = Num 0, pp_index = Num 1\<rparr>]\<rparr>"

definition gap_example :: packed_image where
  "gap_example = \<lparr>p_size = \<lparr>width = Num 3, height = Num 1\<rparr>, p_boxSize = Num 1,
     p_data = [box_right, box_left]\<rparr>"

definition gap_swapped :: packed_image where
  "gap_swapped = \<lparr>p_size = \<lparr>width = Num 3, height = Num 1\<rparr>, p_boxSize = Num 1,
     p_data = [box_left, box_right]\<rparr>"

text \<open>A grid of \<open>255 \<times> 255\<close> tiles of \<open>255 \<times> 255\<close> pixels, with no boxes.\<close>

definition huge_example :: packed_image where
  "huge_example = \<lparr>p_size = \<lparr>width = Num 255, height = Num 255\<rparr>, p_boxSize = Num 255,
     p_data = []\<rparr>"

text \<open>A grid of \<open>60 \<times> 60\<close> tiles of \<open>100 \<times> 100\<close> pixels, with no boxes.\<close>

definition large_example :: packed_image where
  "large_example = \<lparr>p_size = \<lparr>width = Num 60, height = Num 60\<rparr>, p_boxSize = Num 100,
     p_data = []\<rparr>"

text \<open>An image of \<open>5 \<times> 3\<close> pixels, all of one grey.\<close>

definition small_image :: image where
  "small_image = \<lparr>i_width = 5, i_height = 3, i_data = replicate 60 128\<rparr>"

text \<open>
  A checkerboard of \<open>2 \<times> 2\<close> pixels (black, white, white, black), its one box for
  \<open>boxSize = 2\<close>, and the packed box.
\<close>

definition checker_image :: image where
  "checker_image = \<lparr>i_width = 2, i_height = 2,
     i_data = [0, 0, 0, 255, 255, 255, 255, 255, 255, 255, 255, 255, 0, 0, 0, 255]\<rparr>"

definition black :: colour where
  "black = \<lparr>col_r = Num 0, col_g = Num 0, col_b = Num 0\<rparr>"

definition white :: colour where
  "white = \<lparr>col_r = Num 255, col_g = Num 255, col_b = Num 255\<rparr>"

definition checker_box :: box where
  "checker_box = \<lparr>bx_x = Num 0, bx_y = Num 0,
     bx_data = [\<lparr>px_x = Num 0, px_y = Num 0, px_color = black\<rparr>,
                \<lparr>px_x = Num 1, px_y = Num 0, px_color = white\<rparr>,
                \<lparr>px_x = Num 0, px_y = Num 1, px_color = white\<rparr>,
                \<lparr>px_x = Num 1, px_y = Num 1, px_color = black\<rparr>]\<rparr>"

definition checker_boxed :: boxed_image where
  "checker_boxed = \<lparr>b_size = \<lparr>width = Num 1, height = Num 1\<rparr>, b_boxSize = Num 2,
     b_data = [checker_box]\<rparr>"

definition checker_packed :: packed_image where
  "checker_packed = \<lparr>p_size = \<lparr>width = Num 1, height = Num 1\<rparr>, p_boxSize = Num 2,
     p_data = [\<lparr>pb_x = Num 0, pb_y = Num 0, pb_light = white, pb_dark = black,
                pb_data = [\<lparr>pp_x = Num 0, pp_y = Num 0, pp_index = Num 0\<rparr>,
                           \<lparr>pp_x = Num 1, pp_y = Num 0, pp_index = Num 1\<rparr>,
                           \<lparr>pp_x = Num 0, pp_y = Num 1, pp_index = Num 1\<rparr>,
                           \<lparr>pp_x = Num 1, pp_y = Num 1, pp_index = Num 0\<rparr>]\<rparr>]\<rparr>"

text \<open>A box of \<open>2 \<times> 2\<close> black pixels, and the image of that one box.\<close>

definition black_box :: box where
  "black_box = \<lparr>bx_x = Num 0, bx_y = Num 0,
     bx_data = [\<lparr>px_x = Num 0, px_y = Num 0, px_color = black\<rparr>,
                \<lparr>px_x = Num 1, px_y = Num 0, px_color = black\<rparr>,
                \<lparr>px_x = Num 0, px_y = Num 1, px_color = black\<rparr>,
                \<lparr>px_x = Num 1, px_y = Num 1, px_color = black\<rparr>]\<rparr>"

definition black_image :: image where
  "black_image = \<lparr>i_width = 2, i_height = 2,
     i_data = [0, 0, 0, 255, 0, 0, 0, 255, 0, 0, 0, 255, 0, 0, 0, 255]\<rparr>"

text \<open>
  An image of \<open>3 \<times> 3\<close> pixels of the colour (11, 11, 11), and its one box for
  \<open>boxSize = 3\<close>.
\<close>

definition grey :: colour where
  "grey = \<lparr>col_r = Num 11, col_g = Num 11, col_b = Num 11\<rparr>"

definition grey_image :: image where
  "grey_image = \<lparr>i_width = 3, i_height = 3,
     i_data = [11, 11, 11, 255, 11, 11, 11, 255, 11, 11, 11, 255,
               11, 11, 11, 255, 11, 11, 11, 255, 11, 11, 11, 255,
               11, 11, 11, 255, 11, 11, 11, 255, 11, 11, 11, 255]\<rparr>"

definition grey_box :: box where
  "grey_box = \<lparr>bx_x = Num 0, bx_y = Num 0,
     bx_data = [\<lparr>px_x = Num 0, px_y = Num 0, px_color = grey\<rparr>,
                \<lparr>px_x = Num 1, px_y = Num 0, px_color = grey\<rparr>,
                \<lparr>px_x = Num 2, px_y = Num 0, px_color = grey\<rparr>,
                \<lparr>px_x = Num 0, px_y = Num 1, px_color = grey\<rparr>,
                \<lparr>px_x = Num 1, px_y = Num 1, px_color = grey\<rparr>,
                \<lparr>px_x = Num 2, px_y = Num 1, px_color = grey\<rparr>,
                \<lparr>px_x = Num 0, px_y = Num 2, px_color = grey\<rparr>,
                \<lparr>px_x = Num 1, px_y = Num 2, px_color = grey\<rparr>,
                \<lparr>px_x = Num 2, px_y = Num 2, px_color = grey\<rparr>]\<rparr>"

definition grey_boxed :: boxed_image where
  "grey_boxed = \<lparr>b_size = \<lparr>width = Num 1, height = Num 1\<rparr>, b_boxSize = Num 3,
     b_data = [grey_box]\<rparr>"

text \<open>
  An image of \<open>256 \<times> 1\<close> pixels and an image of \<open>4097 \<times> 4096\<close> pixels, both black
  and opaque.
\<close>

definition wide_image :: image where
  "wide_image = \<lparr>i_width = 256, i_height = 1, i_data = concat (replicate 256 [0, 0, 0, 255])\<rparr>"

definition tall_image :: image where
  "tall_image = \<lparr>i_width = 4097, i_height = 4096,
     i_data = concat (replicate (4097 * 4096) [0, 0, 0, 255])\<rparr>"

section \<open>The box count field\<close>

lemma ff_mask: "(0xFF :: 32 word) = mask 8"
  by (simp add: mask_eq_exp_minus_1)

lemma count_hi: "signed_drop_bit 16 ((w :: 32 word) AND push_bit 16 0xFF) = take_bit 8 (drop_bit 16 w)"
  unfolding ff_mask by (rule bit_word_eqI) (auto simp: bit_simps)

lemma count_mid: "signed_drop_bit 8 ((w :: 32 word) AND push_bit 8 0xFF) = take_bit 8 (drop_bit 8 w)"
  unfolding ff_mask by (rule bit_word_eqI) (auto simp: bit_simps)

lemma count_lo: "(w :: 32 word) AND 0xFF = take_bit 8 (drop_bit 0 w)"
  unfolding ff_mask by (simp add: take_bit_eq_mask)

lemma int_bits:
  "k \<le> 24 \<Longrightarrow> take_bit 8 (drop_bit k (take_bit LENGTH(32) (n::int))) = take_bit 8 (drop_bit k n)"
  by (rule bit_eqI) (auto simp: bit_simps)

lemma sint_byte_of_word:
  assumes "k \<le> 24"
  shows "sint (take_bit 8 (drop_bit k (word_of_int n :: 32 word))) = (n div 2 ^ k) mod 256"
proof -
  have u: "uint (take_bit 8 (drop_bit k (word_of_int n :: 32 word))) = take_bit 8 (drop_bit k n)"
    by (simp only: unsigned_take_bit_eq unsigned_drop_bit_eq uint_word_of_int_eq
        take_bit_take_bit min.idem int_bits [OF assms])
  have "take_bit 8 (drop_bit k n) = (n div 2 ^ k) mod 256"
    by (simp add: take_bit_eq_mod drop_bit_eq_div)
  moreover have "0 \<le> (n div 2 ^ k) mod 256" "(n div 2 ^ k) mod 256 < 256" by simp_all
  ultimately show ?thesis using u
    by (simp only: sint_uint signed_take_bit_int_eq_self) (simp add: signed_take_bit_int_eq_self)
qed

lemma dataLength_bytes_eq:
  "dataLength_bytes n =
     [Num ((int n div 65536) mod 256), Num ((int n div 256) mod 256), Num (int n mod 256)]"
  unfolding dataLength_bytes_def Let_def toInt32.simps count_hi count_mid count_lo
  using sint_byte_of_word [of 16 "int n"] sint_byte_of_word [of 8 "int n"]
    sint_byte_of_word [of 0 "int n"]
  by (simp del: drop_bit_0)


lemma uint_byte: "0 \<le> k \<Longrightarrow> k < 256 \<Longrightarrow> uint (word_of_int k :: 8 word) = k"
  by (simp add: uint_word_of_int)

lemma uint_byte_mod: "uint (word_of_int (k mod 256) :: 8 word) = k mod 256"
  by (rule uint_byte) simp_all

lemma digits24: "((n::int) div 65536) mod 256 * 65536 + (n div 256) mod 256 * 256 + n mod 256 = n mod 16777216"
proof -
  have "n mod (256 * 65536) = 256 * (n div 256 mod 65536) + n mod 256"
    by (rule zmod_zmult2_eq) simp
  moreover have "(n div 256) mod (256 * 256) = 256 * (n div 256 div 256 mod 256) + n div 256 mod 256"
    by (rule zmod_zmult2_eq) simp
  moreover have "n div 256 div 256 = n div (256 * 256)"
    by (rule zdiv_zmult2_eq [symmetric]) simp
  ultimately show ?thesis by simp
qed

lemma serialise_Inr:
  assumes "serialiseFromPacked p = Inr bytes"
  shows "bytes = [99, 115, 113, 47, 113, 105, 109, 103, 0, 1,
       toUint8 (p_boxSize p), toUint8 (width (p_size p)), toUint8 (height (p_size p)),
       word_of_int ((int (length (p_data p)) div 65536) mod 256),
       word_of_int ((int (length (p_data p)) div 256) mod 256),
       word_of_int (int (length (p_data p)) mod 256)]
      @ concat (map (map toUint8 \<circ> box_values) (p_data p))"
  using assms
  by (simp add: serialiseFromPacked_def MAGIC_def version_def dataLength_bytes_eq map_concat
      split: if_splits)

lemma count_bytes_value:
  assumes "serialiseFromPacked p = Inr bytes"
  shows "uint (bytes ! 13) * 65536 + uint (bytes ! 14) * 256 + uint (bytes ! 15)
           = int (length (p_data p)) mod 2 ^ 24"
proof -
  let ?n = "int (length (p_data p))"
  note b = serialise_Inr [OF assms]
  have "uint (bytes ! 13) = (?n div 65536) mod 256"
    "uint (bytes ! 14) = (?n div 256) mod 256"
    "uint (bytes ! 15) = ?n mod 256"
    by (subst b, simp only: nth_append, simp add: uint_byte_mod)+
  then show ?thesis
    using digits24 [of ?n] by simp
qed

lemma length_box_values: "length (box_values box) = 8 + length (pb_data box)"
  by (simp add: box_values_def)

lemma records_length:
  "length (concat (map (map toUint8 \<circ> box_values) d)) = (\<Sum>box\<leftarrow>d. 8 + length (pb_data box))"
  by (induction d) (simp_all add: length_box_values)

lemma records_length_uniform:
  "\<forall>box \<in> set d. length (pb_data box) = k \<Longrightarrow>
   length (concat (map (map toUint8 \<circ> box_values) d)) = length d * (8 + k)"
  by (induction d) (simp_all add: length_box_values)

section \<open>Properties of the serialiser\<close>

lemma magic_ascii: "map of_char ''csq/qimg'' = MAGIC"
  by (simp add: MAGIC_def)

text \<open>
  C5. For a packed image whose \<open>boxSize\<close>, \<open>size.width\<close> and \<open>size.height\<close> are
  within 0 to 255 and whose box count is below \<open>2 ^ 24\<close>, \<open>serialiseFromPacked\<close>
  returns bytes that start with the 8 magic bytes (ASCII \<open>csq/qimg\<close>), then the version
  bytes 0 and 1, \<open>boxSize\<close> at offset 10, \<open>size.width\<close> at 11, \<open>size.height\<close> at 12
  and the box count as a big-endian 24-bit number at offsets 13 to 15 (0, 0, 1 for one
  box); when every box has \<open>boxSize\<^sup>2\<close> pixel entries the length is
  \<open>16 + boxCount * (8 + boxSize\<^sup>2)\<close>.
\<close>

theorem serialised_layout:
  assumes bs: "p_boxSize p = Num bs" "0 \<le> bs" "bs \<le> 255"
    and w: "width (p_size p) = Num w" "0 \<le> w" "w \<le> 255"
    and h: "height (p_size p) = Num h" "0 \<le> h" "h \<le> 255"
    and n: "length (p_data p) < 2 ^ 24"
  shows "\<exists>bytes. serialiseFromPacked p = Inr bytes
     \<and> take 8 bytes = map of_char ''csq/qimg''
     \<and> take 8 bytes = [99, 115, 113, 47, 113, 105, 109, 103]
     \<and> take 2 (drop 8 bytes) = [0, 1]
     \<and> uint (bytes ! 10) = bs \<and> uint (bytes ! 11) = w \<and> uint (bytes ! 12) = h
     \<and> uint (bytes ! 13) * 65536 + uint (bytes ! 14) * 256 + uint (bytes ! 15)
          = int (length (p_data p))
     \<and> (length (p_data p) = 1 \<longrightarrow> take 3 (drop 13 bytes) = [0, 0, 1])
     \<and> ((\<forall>box \<in> set (p_data p). int (length (pb_data box)) = bs * bs)
          \<longrightarrow> int (length bytes) = 16 + int (length (p_data p)) * (8 + bs * bs))"
proof -
  obtain bytes where s: "serialiseFromPacked p = Inr bytes"
    using bs w h by (auto simp: serialiseFromPacked_def)
  note b = serialise_Inr [OF s]
  have m: "take 8 bytes = [99, 115, 113, 47, 113, 105, 109, 103]"
    by (subst b) simp
  have v: "take 2 (drop 8 bytes) = [0, 1]"
    by (subst b) simp
  have "bytes ! 10 = toUint8 (p_boxSize p)" "bytes ! 11 = toUint8 (width (p_size p))"
    "bytes ! 12 = toUint8 (height (p_size p))"
    by (subst b, simp)+
  then have f: "uint (bytes ! 10) = bs" "uint (bytes ! 11) = w" "uint (bytes ! 12) = h"
    using bs w h by (simp_all add: uint_byte)
  have c: "uint (bytes ! 13) * 65536 + uint (bytes ! 14) * 256 + uint (bytes ! 15)
          = int (length (p_data p))"
    using count_bytes_value [OF s] n by simp
  have "take 3 (drop 13 bytes) = [word_of_int ((int (length (p_data p)) div 65536) mod 256),
       word_of_int ((int (length (p_data p)) div 256) mod 256),
       word_of_int (int (length (p_data p)) mod 256)]"
    by (subst b) simp
  then have o: "take 3 (drop 13 bytes) = [0, 0, 1]" if "length (p_data p) = 1"
    using that by simp
  have l: "int (length bytes) = 16 + int (length (p_data p)) * (8 + bs * bs)"
    if u: "\<forall>box \<in> set (p_data p). int (length (pb_data box)) = bs * bs"
  proof -
    from u have k: "\<forall>box \<in> set (p_data p). length (pb_data box) = nat (bs * bs)"
      by auto
    have "length bytes = 16 + length (concat (map (map toUint8 \<circ> box_values) (p_data p)))"
      by (subst b) simp
    then have "length bytes = 16 + length (p_data p) * (8 + nat (bs * bs))"
      by (simp only: records_length_uniform [OF k])
    then have "int (length bytes) = 16 + int (length (p_data p)) * (8 + int (nat (bs * bs)))"
      by simp
    moreover have "int (nat (bs * bs)) = bs * bs"
      by simp
    ultimately show ?thesis
      by (simp only:)
  qed
  from s m v f c o l show ?thesis
    by (simp add: MAGIC_def)
qed

text \<open>The image of one \<open>2 \<times> 2\<close> box: count bytes 0, 0, 1 and 28 bytes in all.\<close>

theorem serialised_layout_witness:
  "\<exists>bytes. serialiseFromPacked layout_example = Inr bytes
     \<and> take 8 bytes = map of_char ''csq/qimg''
     \<and> take 2 (drop 8 bytes) = [0, 1]
     \<and> uint (bytes ! 10) = 2 \<and> uint (bytes ! 11) = 1 \<and> uint (bytes ! 12) = 1
     \<and> take 3 (drop 13 bytes) = [0, 0, 1]
     \<and> length bytes = 28"
  using serialised_layout [of layout_example 2 1 1]
  by (auto simp: layout_example_def)

section \<open>Grids and windows of lists\<close>

lemma grid_as_map:
  "concat (map (\<lambda>y. map (\<lambda>x. f y x) [0..<n]) [0..<m])
     = map (\<lambda>k. f (k div n) (k mod n)) [0..<m * n]"
proof (induction m)
  case 0
  then show ?case by simp
next
  case (Suc m)
  have "[0..<m * n + n] = [0..<m * n] @ [m * n..<m * n + n]"
    by (rule upt_add_eq_append) simp
  moreover have "[m * n..<m * n + n] = map (\<lambda>x. x + m * n) [0..<n]"
    by (simp only: map_add_upt add.commute [of n])
  moreover have "map (\<lambda>k. f (k div n) (k mod n)) (map (\<lambda>x. x + m * n) [0..<n])
      = map (\<lambda>x. f m x) [0..<n]"
    by simp
  moreover have "Suc m * n = m * n + n"
    by simp
  ultimately show ?case
    using Suc by (simp only: upt_Suc_append map_append concat_append le0 if_True
        concat.simps append_Nil2 list.map)
qed



section \<open>Reading a box record\<close>

lemma js_grid:
  "0 \<le> bs \<Longrightarrow> concat (map (\<lambda>y. map (\<lambda>x. f y x) (js_range (Num bs))) (js_range (Num bs)))
     = map (\<lambda>k. f (int (k div nat bs)) (int (k mod nat bs))) [0..<nat bs * nat bs]"
  using grid_as_map [of "\<lambda>y x. f (int y) (int x)" "nat bs" "nat bs"]
  by (simp add: comp_def)





lemma u8get_nth: "k < length bs \<Longrightarrow> u8get bs (Num (int k)) = Num (uint (bs ! k))"
  by simp

lemma toUint8_u8get: "k < length bs \<Longrightarrow> toUint8 (u8get bs (Num (int k))) = bs ! k"
  by simp







section \<open>Round trip between packed images and bytes\<close>





















section \<open>Reconstruction by unpack\<close>

lemma cell_bound:
  assumes "0 \<le> X" "X < W" "0 \<le> Y" "Y < (H::int)"
  shows "0 \<le> Y * W + X" and "Y * W + X < W * H"
proof -
  from assms show "0 \<le> Y * W + X" by simp
  from assms have "Y + 1 \<le> H" "0 \<le> W" by simp_all
  then have "(Y + 1) * W \<le> H * W"
    by (rule mult_right_mono)
  with assms show "Y * W + X < W * H"
    by (simp add: algebra_simps)
qed

lemma upt4: "[i..<i + 4] = [i, i + 1, i + 2, i + 3]"
  by (simp add: upt_conv_Cons numeral_eq_Suc)

lemma fold_entries:
  "fold (\<lambda>box. fold (f box) (pb_data box)) boxes img
     = fold (\<lambda>(box, q). f box q) (concat (map (\<lambda>box. map (Pair box) (pb_data box)) boxes)) img"
  by (induction boxes arbitrary: img) (simp_all add: fold_map comp_def)

lemma length_selected: "length (selected box q) = 4"
  by (simp add: selected_def Let_def)

lemma take4:
  assumes "i + 3 < length xs"
  shows "take 4 (drop i xs) = [xs ! i, xs ! (i + 1), xs ! (i + 2), xs ! (i + 3)]"
  using assms
  by (intro nth_equalityI) (auto simp: nth_Cons' less_Suc_eq numeral_eq_Suc)

lemma mset_concat_map:
  assumes "mset xs = mset ys"
  shows "mset (concat (map f xs)) = mset (concat (map f ys))"
proof -
  have "mset (concat (map f zs)) = sum_mset (image_mset (mset \<circ> f) (mset zs))" for zs
    by (induction zs) simp_all
  with assms show ?thesis by simp
qed

lemma blank_nth: "i < n \<Longrightarrow> blank n ! i = (if i mod 4 = 3 then Num 255 else Num 0)"
  by (simp add: blank_def)

lemma length_blank: "length (blank n) = n"
  by (simp add: blank_def)

lemma list4: "length c = 4 \<Longrightarrow> c = [c ! 0, c ! 1, c ! 2, c ! 3]"
  by (auto simp: length_Suc_conv numeral_eq_Suc)

lemma entries_mem: "box \<in> set (p_data p) \<Longrightarrow> q \<in> set (pb_data box) \<Longrightarrow> (box, q) \<in> set (entries p)"
  by (auto simp: entries_def)

lemma length_set_at: "length (set_at xs k v) = max (length xs) (Suc k)"
  by (simp add: set_at_def)

lemma get_set_at: "js_get (set_at xs k v) j = (if j = k then v else js_get xs j)"
  by (auto simp: set_at_def js_get_def nth_append)

lemma js_set_key: "js_set xs i v = (case key i of Some k \<Rightarrow> set_at xs k v | None \<Rightarrow> xs)"
  by (cases i) (simp_all add: set_at_def)

text \<open>Writes that write no element change nothing.\<close>

lemma run_writes_keyed:
  "run_writes ws xs = fold (\<lambda>(k, v) ys. set_at ys k v) (keyed ws) xs"
proof (induction ws arbitrary: xs)
  case Nil
  then show ?case by (simp add: run_writes_def keyed_def)
next
  case (Cons a ws)
  obtain i v where a: "a = (i, v)" by (cases a)
  have k: "keyed (a # ws) = (case key i of Some k \<Rightarrow> [(k, v)] | None \<Rightarrow> []) @ keyed ws"
    by (simp add: keyed_def a)
  have "run_writes (a # ws) xs = run_writes ws (js_set xs i v)"
    by (simp add: run_writes_def a)
  also have "\<dots> = fold (\<lambda>(k, v) ys. set_at ys k v) (keyed ws) (js_set xs i v)"
    by (rule Cons.IH)
  finally show ?case
    unfolding k by (simp add: js_set_key split: option.splits)
qed

text \<open>After a list of element writes every element holds what was written to it last.\<close>

lemma get_fold_set_at:
  "js_get (fold (\<lambda>(k, v) ys. set_at ys k v) ks xs) j
     = (case map_of (rev ks) j of Some v \<Rightarrow> v | None \<Rightarrow> js_get xs j)"
proof (induction ks arbitrary: xs)
  case Nil
  then show ?case by simp
next
  case (Cons a ks)
  obtain k v where a: "a = (k, v)" by (cases a)
  show ?case
    by (simp add: a Cons.IH get_set_at map_add_def split: option.splits)
qed

lemma length_fold_set_at:
  "j < length (fold (\<lambda>(k, v) ys. set_at ys k v) ks xs) \<longleftrightarrow> j < length xs \<or> (\<exists>k \<in> fst ` set ks. j \<le> k)"
proof (induction ks arbitrary: xs)
  case Nil
  then show ?case by simp
next
  case (Cons a ks)
  obtain k v where a: "a = (k, v)" by (cases a)
  show ?case
    by (auto simp: a Cons.IH length_set_at)
qed

lemma keyed_append: "keyed (ws @ vs) = keyed ws @ keyed vs"
  by (simp add: keyed_def)

lemma keyed_concat: "keyed (concat wss) = concat (map keyed wss)"
  by (induction wss) (simp_all add: keyed_append, simp add: keyed_def)

text \<open>The elements that the four writes of one entry write.\<close>

lemma keyed_element_writes:
  assumes "0 \<le> m" "4 * m + 3 < 4294967295"
  shows "keyed (element_writes (Num m) c)
     = [(4 * nat m, c ! 0), (4 * nat m + 1, c ! 1), (4 * nat m + 2, c ! 2), (4 * nat m + 3, c ! 3)]"
  using assms by (simp add: keyed_def element_writes_def nat_add_distrib nat_mult_distrib)

lemma keys_element_writes:
  assumes "k \<in> fst ` set (keyed (element_writes number c))"
  shows "\<exists>m. number = Num m \<and> 0 \<le> m \<and> k div 4 = nat m"
proof (cases number)
  case (Num m)
  from assms have "0 \<le> m \<and> k div 4 = nat m"
    unfolding Num by (auto simp: keyed_def element_writes_def split: if_splits)
  with Num show ?thesis by simp
next
  case NaN
  with assms show ?thesis by (simp add: keyed_def element_writes_def)
next
  case Undefined
  with assms show ?thesis by (simp add: keyed_def element_writes_def)
qed

lemma distinct_element_writes: "distinct (map fst (keyed (element_writes number c)))"
proof (cases number)
  case (Num m)
  show ?thesis
  proof (cases "0 \<le> m")
    case True
    then have "nat (m * 4 + 1) = nat (m * 4) + 1" "nat (m * 4 + 2) = nat (m * 4) + 2"
      "nat (m * 4 + 3) = nat (m * 4) + 3"
      by (simp_all add: nat_add_distrib)
    then show ?thesis
      unfolding Num by (simp add: keyed_def element_writes_def)
  next
    case False
    then show ?thesis
      unfolding Num by (simp add: keyed_def element_writes_def)
  qed
next
  case NaN
  then show ?thesis by (simp add: keyed_def element_writes_def)
next
  case Undefined
  then show ?thesis by (simp add: keyed_def element_writes_def)
qed

lemma run_writes_append: "run_writes (ws @ vs) xs = run_writes vs (run_writes ws xs)"
  by (simp add: run_writes_def)

lemma unpack_pixel_run:
  "unpack_pixel width_px boxSize box q img
     = run_writes (element_writes (pixel_number width_px boxSize box q) (selected box q)) img"
  by (simp add: unpack_pixel_def run_writes_def element_writes_def pixel_number_def position_def
      selected_def Let_def)

lemma fold_unpack_pixel:
  "fold (\<lambda>(box, q). unpack_pixel width_px boxSize box q) es img
     = run_writes (all_writes width_px boxSize es) img"
proof (induction es arbitrary: img)
  case Nil
  then show ?case by (simp add: all_writes_def run_writes_def)
next
  case (Cons e es)
  obtain box q where e: "e = (box, q)" by (cases e)
  have 1: "fold (\<lambda>(box, q). unpack_pixel width_px boxSize box q) (e # es) img
      = fold (\<lambda>(box, q). unpack_pixel width_px boxSize box q) es
          (unpack_pixel width_px boxSize box q img)"
    by (simp add: e)
  have 2: "fold (\<lambda>(box, q). unpack_pixel width_px boxSize box q) es
          (unpack_pixel width_px boxSize box q img)
      = run_writes (all_writes width_px boxSize es) (unpack_pixel width_px boxSize box q img)"
    by (rule Cons.IH)
  have 3: "run_writes (all_writes width_px boxSize es) (unpack_pixel width_px boxSize box q img)
      = run_writes (all_writes width_px boxSize (e # es)) img"
    by (simp add: all_writes_def e unpack_pixel_run run_writes_append)
  show ?case
    unfolding 1 2 3 ..
qed

lemma unpack_run:
  assumes f: "p_boxSize p = Num bs" "width (p_size p) = Num w" "height (p_size p) = Num h"
    and lim: "0 \<le> (w * bs) * (h * bs) * 4" "(w * bs) * (h * bs) * 4 \<le> 4294967295"
      "(w * bs) * (h * bs) * 4 \<le> int cap"
  shows "unpack cap p = Inr \<lparr>bm_width = Num (w * bs), bm_height = Num (h * bs),
      bm_data = run_writes (all_writes (Num (w * bs)) (Num bs) (entries p))
                  (blank (nat ((w * bs) * (h * bs) * 4)))\<rparr>"
proof -
  let ?n = "nat ((w * bs) * (h * bs) * 4)"
  from lim have "?n \<le> cap" by simp
  then have n: "filled_array cap (js_mul (js_mul (js_mul (Num w) (Num bs)) (js_mul (Num h) (Num bs))) (Num 4))
      = Some ?n"
    using lim by (simp add: filled_array_def new_array_length_def)
  have "fold (\<lambda>box. fold (unpack_pixel (Num (w * bs)) (Num bs) box) (pb_data box)) (p_data p) (blank ?n)
      = fold (\<lambda>(box, q). unpack_pixel (Num (w * bs)) (Num bs) box q) (entries p) (blank ?n)"
    unfolding entries_def by (rule fold_entries)
  also have "\<dots> = run_writes (all_writes (Num (w * bs)) (Num bs) (entries p)) (blank ?n)"
    by (rule fold_unpack_pixel)
  finally show ?thesis
    unfolding unpack_def Let_def f n by simp
qed

text \<open>Every element that is written belongs to the pixel of some entry.\<close>

lemma keys_all_writes:
  assumes "k \<in> fst ` set (keyed (all_writes W bs es))"
  shows "\<exists>(box, q) \<in> set es. \<exists>m. pixel_number W bs box q = Num m \<and> 0 \<le> m \<and> k div 4 = nat m"
proof -
  from assms obtain e where e: "e \<in> set es"
    and k: "k \<in> fst ` set (keyed (case e of (box, q) \<Rightarrow>
              element_writes (pixel_number W bs box q) (selected box q)))"
    unfolding all_writes_def keyed_concat by (auto simp: comp_def)
  obtain box q where bq: "e = (box, q)" by (cases e)
  from k have "\<exists>m. pixel_number W bs box q = Num m \<and> 0 \<le> m \<and> k div 4 = nat m"
    unfolding bq by (simp only: prod.case keys_element_writes)
  with e bq show ?thesis by blast
qed

lemma all_writes_Cons:
  "keyed (all_writes W bs ((box, q) # es))
     = keyed (element_writes (pixel_number W bs box q) (selected box q)) @ keyed (all_writes W bs es)"
  by (simp add: all_writes_def keyed_append)

lemma all_writes_append:
  "keyed (all_writes W bs (es @ es')) = keyed (all_writes W bs es) @ keyed (all_writes W bs es')"
  by (simp add: all_writes_def keyed_append)

lemma distinct_all_writes:
  assumes "distinct (map (\<lambda>(box, q). pixel_number W bs box q) es)"
  shows "distinct (map fst (keyed (all_writes W bs es)))"
  using assms
proof (induction es)
  case Nil
  then show ?case by (simp add: all_writes_def keyed_def)
next
  case (Cons e es)
  obtain box q where e: "e = (box, q)" by (cases e)
  let ?ke = "keyed (element_writes (pixel_number W bs box q) (selected box q))"
  have d2: "distinct (map fst (keyed (all_writes W bs es)))"
    using Cons by simp
  have "k \<notin> fst ` set (keyed (all_writes W bs es))" if "k \<in> fst ` set ?ke" for k
  proof
    assume "k \<in> fst ` set (keyed (all_writes W bs es))"
    from keys_all_writes [OF this] obtain box' q' m' where e': "(box', q') \<in> set es"
      and m': "pixel_number W bs box' q' = Num m'" "0 \<le> m'" "k div 4 = nat m'"
      by blast
    from keys_element_writes [OF that] obtain m where
      m: "pixel_number W bs box q = Num m" "0 \<le> m" "k div 4 = nat m"
      by blast
    from m m' have "pixel_number W bs box q = pixel_number W bs box' q'"
      by simp
    moreover from Cons.prems
    have "pixel_number W bs box q \<notin> (\<lambda>(box, q). pixel_number W bs box q) ` set es"
      by (simp add: e)
    ultimately show False using e' by force
  qed
  then have "set (map fst ?ke) \<inter> set (map fst (keyed (all_writes W bs es))) = {}"
    by auto
  with distinct_element_writes d2 show ?case
    unfolding e all_writes_Cons by simp
qed

text \<open>
  The pixel of an entry holds the entry's colour when no later entry is written to the
  same pixel.
\<close>

lemma written_pixel:
  assumes es: "es = es1 @ (box, q) # es2"
    and num: "pixel_number W bs box q = Num m" and m: "0 \<le> m" "4 * m + 3 < 4294967295"
    and later: "\<forall>(box', q') \<in> set es2. pixel_number W bs box' q' \<noteq> Num m"
  shows "take 4 (drop (4 * nat m) (run_writes (all_writes W bs es) xs)) = selected box q"
proof -
  define c where "c = selected box q"
  define K1 where "K1 = keyed (all_writes W bs es1)"
  define K2 where "K2 = keyed (all_writes W bs es2)"
  define Ke where "Ke = [(4 * nat m, c ! 0), (4 * nat m + 1, c ! 1), (4 * nat m + 2, c ! 2),
    (4 * nat m + 3, c ! 3)]"
  define r where "r = fold (\<lambda>(k, v) ys. set_at ys k v) (K1 @ Ke @ K2) xs"
  have K: "keyed (all_writes W bs es) = K1 @ Ke @ K2"
    unfolding es all_writes_append all_writes_Cons num keyed_element_writes [OF m]
    by (simp add: K1_def K2_def Ke_def c_def)
  have r: "run_writes (all_writes W bs es) xs = r"
    unfolding run_writes_keyed K r_def ..
  have no2: "4 * nat m + j \<notin> fst ` set K2" if "j < 4" for j
  proof
    assume "4 * nat m + j \<in> fst ` set K2"
    from keys_all_writes [OF this [unfolded K2_def]] obtain box' q' m' where e': "(box', q') \<in> set es2"
      and m': "pixel_number W bs box' q' = Num m'" "0 \<le> m'" "(4 * nat m + j) div 4 = nat m'"
      by blast
    from that have "(4 * nat m + j) div 4 = nat m" by simp
    with m' m(1) have "m' = m" by simp
    with m'(1) later e' show False by blast
  qed
  have get: "js_get r (4 * nat m + j) = c ! j" if j: "j < 4" for j
  proof -
    from no2 [OF j] have "map_of (rev K2) (4 * nat m + j) = None"
      by (simp add: map_of_eq_None_iff)
    moreover from j have "j = 0 \<or> j = 1 \<or> j = 2 \<or> j = 3" by arith
    then have "map_of (rev Ke) (4 * nat m + j) = Some (c ! j)"
      by (auto simp: Ke_def)
    ultimately have "map_of (rev (K1 @ Ke @ K2)) (4 * nat m + j) = Some (c ! j)"
      by (simp add: map_add_def)
    then show ?thesis
      unfolding r_def get_fold_set_at by simp
  qed
  have len: "4 * nat m + 3 < length r"
    unfolding r_def length_fold_set_at by (simp add: Ke_def)
  then have "r ! (4 * nat m + j) = c ! j" if "j < 4" for j
    using get [OF that] that by (simp add: js_get_def)
  from this [of 0] this [of 1] this [of 2] this [of 3]
  have "take 4 (drop (4 * nat m) r) = [c ! 0, c ! 1, c ! 2, c ! 3]"
    using len by (simp add: take4)
  also have "\<dots> = c"
    using list4 [of c] by (simp add: c_def length_selected)
  finally show ?thesis
    unfolding r c_def .
qed

text \<open>A pixel that no entry is written to keeps its initial colour.\<close>

lemma untouched_pixel:
  assumes m: "0 \<le> m" "4 * nat m + 3 < n"
    and un: "Num m \<notin> (\<lambda>(box, q). pixel_number W bs box q) ` set es"
  shows "take 4 (drop (4 * nat m) (run_writes (all_writes W bs es) (blank n)))
      = [Num 0, Num 0, Num 0, Num 255]"
proof -
  define r where "r = fold (\<lambda>(k, v) ys. set_at ys k v) (keyed (all_writes W bs es)) (blank n)"
  have r: "run_writes (all_writes W bs es) (blank n) = r"
    unfolding run_writes_keyed r_def ..
  have no: "4 * nat m + j \<notin> fst ` set (keyed (all_writes W bs es))" if "j < 4" for j
  proof
    assume "4 * nat m + j \<in> fst ` set (keyed (all_writes W bs es))"
    from keys_all_writes [OF this] obtain box' q' m' where e': "(box', q') \<in> set es"
      and m': "pixel_number W bs box' q' = Num m'" "0 \<le> m'" "(4 * nat m + j) div 4 = nat m'"
      by blast
    from that have "(4 * nat m + j) div 4 = nat m" by simp
    with m' m(1) have "m' = m" by simp
    with m'(1) un e' show False by force
  qed
  have len: "4 * nat m + 3 < length r"
    unfolding r_def length_fold_set_at using m(2) by (simp add: length_blank)
  have e: "r ! (4 * nat m + j) = blank n ! (4 * nat m + j)" if j: "j < 4" for j
  proof -
    from no [OF j] have "map_of (rev (keyed (all_writes W bs es))) (4 * nat m + j) = None"
      by (simp add: map_of_eq_None_iff)
    then have "js_get r (4 * nat m + j) = js_get (blank n) (4 * nat m + j)"
      unfolding r_def get_fold_set_at by simp
    with len j m(2) show ?thesis
      by (simp add: js_get_def length_blank)
  qed
  have b: "blank n ! (4 * nat m) = Num 0" "blank n ! (4 * nat m + 1) = Num 0"
    "blank n ! (4 * nat m + 2) = Num 0" "blank n ! (4 * nat m + 3) = Num 255"
  proof -
    have "(4 * k) mod 4 = 0" "(4 * k + 1) mod 4 = 1" "(4 * k + 2) mod 4 = 2"
      "(4 * k + 3) mod 4 = 3" for k :: nat
      by presburger+
    from this [of "nat m"]
    have "(4 * nat m) mod 4 = 0" "(4 * nat m + 1) mod 4 = 1" "(4 * nat m + 2) mod 4 = 2"
      "(4 * nat m + 3) mod 4 = 3" .
    with m(2) show "blank n ! (4 * nat m) = Num 0" "blank n ! (4 * nat m + 1) = Num 0"
      "blank n ! (4 * nat m + 2) = Num 0" "blank n ! (4 * nat m + 3) = Num 255"
      by (simp_all only: blank_nth) simp_all
  qed
  from e [of 0] e [of 1] e [of 2] e [of 3] b
  have "take 4 (drop (4 * nat m) r) = [Num 0, Num 0, Num 0, Num 255]"
    using len by (simp add: take4)
  then show ?thesis
    unfolding r .
qed

text \<open>
  When no two entries are written to the same pixel, the order of the entries does not
  matter.
\<close>

lemma run_writes_permuted:
  assumes ms: "mset es' = mset es"
    and dis: "distinct (map (\<lambda>(box, q). pixel_number W bs box q) es)"
  shows "run_writes (all_writes W bs es') xs = run_writes (all_writes W bs es) xs"
proof -
  let ?K = "keyed (all_writes W bs es)" and ?K' = "keyed (all_writes W bs es')"
  let ?f = "\<lambda>ks. fold (\<lambda>(k, v) ys. set_at ys k v) ks xs"
  from ms have "mset (map (\<lambda>(box, q). pixel_number W bs box q) es')
      = mset (map (\<lambda>(box, q). pixel_number W bs box q) es)"
    by simp
  with dis have dis': "distinct (map (\<lambda>(box, q). pixel_number W bs box q) es')"
    using mset_eq_imp_distinct_iff by blast
  from ms have "set es' = set es"
    by (rule mset_eq_setD)
  then have s: "set ?K' = set ?K"
    by (simp add: all_writes_def keyed_concat)
  have d: "distinct (map fst (rev ?K))" "distinct (map fst (rev ?K'))"
    using distinct_all_writes [OF dis] distinct_all_writes [OF dis']
    by (simp_all add: rev_map [symmetric])
  from s have "set (rev ?K') = set (rev ?K)" by simp
  with d have mo: "map_of (rev ?K') = map_of (rev ?K)"
    by (simp add: map_of_inject_set)
  have g: "js_get (?f ?K') j = js_get (?f ?K) j" for j
    unfolding get_fold_set_at mo ..
  have "j < length (?f ?K') \<longleftrightarrow> j < length (?f ?K)" for j
    unfolding length_fold_set_at s ..
  then have l: "length (?f ?K') = length (?f ?K)"
    by (meson linorder_neqE_nat less_irrefl)
  have "?f ?K' = ?f ?K"
  proof (rule nth_equalityI [OF l])
    fix j assume "j < length (?f ?K')"
    with l g [of j] show "?f ?K' ! j = ?f ?K ! j"
      by (simp add: js_get_def)
  qed
  then show ?thesis
    unfolding run_writes_keyed .
qed

lemma pixel_at_number:
  assumes "0 \<le> m" "m = Y * W + X"
  shows "pixel_at W buffer X Y = take 4 (drop (4 * nat m) buffer)"
proof -
  have "nat (m * 4) = nat m * nat 4"
    using assms(1) by (rule nat_mult_distrib)
  then have "nat ((Y * W + X) * 4) = 4 * nat m"
    by (simp add: assms(2))
  then show ?thesis
    by (simp only: pixel_at_def)
qed

lemma pixel_number_position:
  assumes "position bs box q = (Num X, Num Y)"
  shows "pixel_number (Num W) bs box q = Num (Y * W + X)"
  using assms by (simp add: pixel_number_def mult.commute)

lemma numbers_entries:
  assumes "p_boxSize p = Num bs" "width (p_size p) = Num w"
  shows "numbers p = map (\<lambda>(box, q). pixel_number (Num (w * bs)) (Num bs) box q) (entries p)"
  by (simp add: numbers_def assms)

text \<open>
  C3 (as amended). For a packed image with non-negative integer \<open>boxSize\<close>, \<open>size.width\<close>
  and \<open>size.height\<close> whose buffer length \<open>(size.width * boxSize) * (size.height * boxSize) * 4\<close>
  is a valid array length and within the capacity \<open>cap\<close> of the engine's arrays,
  \<open>unpack\<close> returns a bitmap of \<open>size.width * boxSize\<close> by \<open>size.height * boxSize\<close>
  pixels. Its buffer is the initial one, of that length and with every pixel
  \<open>(0, 0, 0, 255)\<close>, after the writes of all entries in the order of the list: for every
  box and every one of its entries, placed at
  \<open>(X, Y) = (box.x * boxSize + localX, box.y * boxSize + localY)\<close>, the four elements of
  pixel \<open>(X, Y)\<close> are written with the box's dark colour if the index is 0 and its light
  colour otherwise, and alpha 255. The pixel has that colour in the result unless an entry
  later in the list is written to the same pixel, so every written pixel carries one of the
  two colours of the box written there last. Every pixel of the image that no
  entry is written to is \<open>(0, 0, 0, 255)\<close>. The pixel an entry is written to depends only
  on the entry's own coordinates: listing the same boxes in another order gives the same
  pixel numbers, and the same bitmap when no two entries share a pixel.
\<close>

theorem unpack_reconstructs:
  assumes f: "p_boxSize p = Num bs" "width (p_size p) = Num w" "height (p_size p) = Num h"
    and nn: "0 \<le> bs" "0 \<le> w" "0 \<le> h"
    and lim: "(w * bs) * (h * bs) * 4 \<le> 4294967295"
    and cap: "(w * bs) * (h * bs) * 4 \<le> int cap"
  shows "\<exists>bm. unpack cap p = Inr bm
     \<and> bm_width bm = Num (w * bs) \<and> bm_height bm = Num (h * bs)
     \<and> bm_data bm = run_writes (all_writes (Num (w * bs)) (Num bs) (entries p))
                       (blank (nat ((w * bs) * (h * bs) * 4)))
     \<and> nat ((w * bs) * (h * bs) * 4) \<le> length (bm_data bm)
     \<and> (\<forall>es1 box q es2 X Y.
           entries p = es1 @ (box, q) # es2
           \<and> position (Num bs) box q = (Num X, Num Y)
           \<and> 0 \<le> Y * (w * bs) + X \<and> (Y * (w * bs) + X) * 4 + 3 < 4294967295
           \<and> (\<forall>(box', q') \<in> set es2.
                 pixel_number (Num (w * bs)) (Num bs) box' q' \<noteq> Num (Y * (w * bs) + X))
           \<longrightarrow> pixel_at (w * bs) (bm_data bm) X Y = selected box q)
     \<and> (\<forall>X Y. 0 \<le> X \<and> X < w * bs \<and> 0 \<le> Y \<and> Y < h * bs
           \<and> Num (Y * (w * bs) + X) \<notin> set (numbers p)
           \<longrightarrow> pixel_at (w * bs) (bm_data bm) X Y = [Num 0, Num 0, Num 0, Num 255])
     \<and> (\<forall>p'. p_size p' = p_size p \<and> p_boxSize p' = p_boxSize p \<and> mset (p_data p') = mset (p_data p)
           \<longrightarrow> mset (numbers p') = mset (numbers p)
               \<and> (distinct (numbers p) \<longrightarrow> unpack cap p' = unpack cap p))"
proof -
  define W where "W = w * bs"
  define H where "H = h * bs"
  define n where "n = nat (W * H * 4)"
  define ws where "ws = all_writes (Num W) (Num bs) (entries p)"
  define bm where "bm = \<lparr>bm_width = Num W, bm_height = Num H, bm_data = run_writes ws (blank n)\<rparr>"
  have WH: "0 \<le> W" "0 \<le> H"
    using nn by (simp_all add: W_def H_def)
  then have lim0: "0 \<le> W * H * 4" by simp
  have u: "unpack cap p = Inr bm"
    unfolding bm_def ws_def n_def W_def H_def
    using f lim0 [unfolded W_def H_def] lim cap by (rule unpack_run)
  have nums: "numbers p = map (\<lambda>(box, q). pixel_number (Num W) (Num bs) box q) (entries p)"
    unfolding W_def using f(1,2) by (rule numbers_entries)
  have len: "n \<le> length (bm_data bm)"
  proof -
    have "j < length (bm_data bm)" if "j < n" for j
      using that by (simp add: bm_def run_writes_keyed length_fold_set_at length_blank)
    then show ?thesis
      by (meson not_less less_irrefl)
  qed
  have written: "pixel_at W (bm_data bm) X Y = selected box q"
    if es: "entries p = es1 @ (box, q) # es2"
      and pos: "position (Num bs) box q = (Num X, Num Y)"
      and v: "0 \<le> Y * W + X" "(Y * W + X) * 4 + 3 < 4294967295"
      and later: "\<forall>(box', q') \<in> set es2. pixel_number (Num W) (Num bs) box' q' \<noteq> Num (Y * W + X)"
    for es1 box q es2 X Y
  proof -
    have num: "pixel_number (Num W) (Num bs) box q = Num (Y * W + X)"
      using pos by (rule pixel_number_position)
    from v(2) have v2: "4 * (Y * W + X) + 3 < 4294967295"
      by (simp add: mult.commute)
    have "take 4 (drop (4 * nat (Y * W + X)) (run_writes ws (blank n))) = selected box q"
      unfolding ws_def using es num v(1) v2 later by (rule written_pixel)
    then show ?thesis
      using pixel_at_number [OF v(1) refl] by (simp add: bm_def)
  qed
  have untouched: "pixel_at W (bm_data bm) X Y = [Num 0, Num 0, Num 0, Num 255]"
    if xy: "0 \<le> X" "X < W" "0 \<le> Y" "Y < H" and un: "Num (Y * W + X) \<notin> set (numbers p)" for X Y
  proof -
    have m: "0 \<le> Y * W + X" "Y * W + X < W * H"
      using cell_bound [OF xy] by simp_all
    then have r: "4 * nat (Y * W + X) + 3 < n"
      by (simp add: n_def)
    from un have un': "Num (Y * W + X) \<notin> (\<lambda>(box, q). pixel_number (Num W) (Num bs) box q) ` set (entries p)"
      by (simp add: nums)
    have "take 4 (drop (4 * nat (Y * W + X)) (run_writes ws (blank n))) = [Num 0, Num 0, Num 0, Num 255]"
      unfolding ws_def using m(1) r un' by (rule untouched_pixel)
    then show ?thesis
      using pixel_at_number [OF m(1) refl] by (simp add: bm_def)
  qed
  have perm: "mset (numbers p') = mset (numbers p)
      \<and> (distinct (numbers p) \<longrightarrow> unpack cap p' = unpack cap p)"
    if s: "p_size p' = p_size p" and b: "p_boxSize p' = p_boxSize p"
      and ms: "mset (p_data p') = mset (p_data p)" for p'
  proof -
    have f': "p_boxSize p' = Num bs" "width (p_size p') = Num w" "height (p_size p') = Num h"
      using f s b by simp_all
    have me: "mset (entries p') = mset (entries p)"
      unfolding entries_def using ms by (rule mset_concat_map)
    have nums': "numbers p' = map (\<lambda>(box, q). pixel_number (Num W) (Num bs) box q) (entries p')"
      unfolding W_def using f'(1,2) by (rule numbers_entries)
    have mn: "mset (numbers p') = mset (numbers p)"
      unfolding nums nums' using me by simp
    have u': "unpack cap p' = Inr \<lparr>bm_width = Num W, bm_height = Num H,
        bm_data = run_writes (all_writes (Num W) (Num bs) (entries p')) (blank n)\<rparr>"
      unfolding n_def W_def H_def
      using f' lim0 [unfolded W_def H_def] lim cap by (rule unpack_run)
    have "unpack cap p' = unpack cap p" if "distinct (numbers p)"
    proof -
      from that have "distinct (map (\<lambda>(box, q). pixel_number (Num W) (Num bs) box q) (entries p))"
        by (simp only: nums)
      with me have "run_writes (all_writes (Num W) (Num bs) (entries p')) (blank n)
          = run_writes ws (blank n)"
        unfolding ws_def by (rule run_writes_permuted)
      with u u' show ?thesis
        by (simp add: bm_def)
    qed
    with mn show ?thesis by blast
  qed
  have wh: "bm_width bm = Num W" "bm_height bm = Num H"
    by (simp_all add: bm_def)
  show ?thesis
    unfolding W_def [symmetric] H_def [symmetric] n_def [symmetric]
  proof (intro exI [of _ bm] conjI allI impI)
    show "unpack cap p = Inr bm" by (rule u)
    show "bm_width bm = Num W" "bm_height bm = Num H" by (rule wh)+
    show "bm_data bm = run_writes (all_writes (Num W) (Num bs) (entries p)) (blank n)"
      by (simp add: bm_def ws_def)
    show "n \<le> length (bm_data bm)" by (rule len)
    show "pixel_at W (bm_data bm) X Y = selected box q"
      if "entries p = es1 @ (box, q) # es2
           \<and> position (Num bs) box q = (Num X, Num Y)
           \<and> 0 \<le> Y * W + X \<and> (Y * W + X) * 4 + 3 < 4294967295
           \<and> (\<forall>(box', q') \<in> set es2. pixel_number (Num W) (Num bs) box' q' \<noteq> Num (Y * W + X))"
      for es1 box q es2 X Y
      using that written by blast
    show "pixel_at W (bm_data bm) X Y = [Num 0, Num 0, Num 0, Num 255]"
      if "0 \<le> X \<and> X < W \<and> 0 \<le> Y \<and> Y < H \<and> Num (Y * W + X) \<notin> set (numbers p)" for X Y
      using that untouched by blast
    show "mset (numbers p') = mset (numbers p)"
      if "p_size p' = p_size p \<and> p_boxSize p' = p_boxSize p \<and> mset (p_data p') = mset (p_data p)" for p'
      using that perm by blast
    show "unpack cap p' = unpack cap p"
      if "p_size p' = p_size p \<and> p_boxSize p' = p_boxSize p \<and> mset (p_data p') = mset (p_data p)"
        "distinct (numbers p)" for p'
      using that perm by blast
  qed
qed

lemma entries_gap:
  "entries gap_example = [(box_right, \<lparr>pp_x = Num 0, pp_y = Num 0, pp_index = Num 0\<rparr>),
     (box_left, \<lparr>pp_x = Num 0, pp_y = Num 0, pp_index = Num 1\<rparr>)]"
  by (simp add: entries_def gap_example_def box_right_def box_left_def)

lemma numbers_gap: "numbers gap_example = [Num 2, Num 0]"
proof -
  have "p_boxSize gap_example = Num 1" "width (p_size gap_example) = Num 3"
    by (simp_all add: gap_example_def)
  then show ?thesis
    by (simp add: numbers_def entries_gap pixel_number_def position_def box_right_def box_left_def)
qed

text \<open>
  Two one-pixel boxes in a row of three tiles, on an engine whose arrays hold 12 elements:
  the right box is dark, the left box is light, the middle pixel stays \<open>(0, 0, 0, 255)\<close>,
  and swapping the boxes changes nothing.
\<close>

theorem unpack_reconstructs_witness:
  "p_boxSize gap_example = Num 1 \<and> width (p_size gap_example) = Num 3
   \<and> height (p_size gap_example) = Num 1
   \<and> (3 * 1) * (1 * 1) * 4 \<le> (4294967295 :: int)
   \<and> (3 * 1) * (1 * 1) * 4 \<le> int 12
   \<and> (\<exists>bm. unpack 12 gap_example = Inr bm
        \<and> bm_width bm = Num 3 \<and> bm_height bm = Num 1 \<and> 12 \<le> length (bm_data bm)
        \<and> pixel_at 3 (bm_data bm) 2 0 = [Num 10, Num 20, Num 30, Num 255]
        \<and> pixel_at 3 (bm_data bm) 0 0 = [Num 90, Num 80, Num 70, Num 255]
        \<and> pixel_at 3 (bm_data bm) 1 0 = [Num 0, Num 0, Num 0, Num 255]
        \<and> unpack 12 gap_swapped = unpack 12 gap_example)"
proof -
  have f: "p_boxSize gap_example = Num 1" "width (p_size gap_example) = Num 3"
    "height (p_size gap_example) = Num 1"
    by (simp_all add: gap_example_def)
  have lim: "(3 * 1) * (1 * 1) * 4 \<le> (4294967295 :: int)" by simp
  have cap: "(3 * 1) * (1 * 1) * 4 \<le> int 12" by simp
  have nn: "(0::int) \<le> 1" "(0::int) \<le> 3" by simp_all
  from unpack_reconstructs [OF f nn(1) nn(2) nn(1) lim cap]
  obtain bm where u: "unpack 12 gap_example = Inr bm"
    and d: "bm_width bm = Num (3 * 1)" "bm_height bm = Num (1 * 1)"
      "nat ((3 * 1) * (1 * 1) * 4) \<le> length (bm_data bm)"
    and wr: "\<forall>es1 box q es2 X Y.
           entries gap_example = es1 @ (box, q) # es2
           \<and> position (Num 1) box q = (Num X, Num Y)
           \<and> 0 \<le> Y * (3 * 1) + X \<and> (Y * (3 * 1) + X) * 4 + 3 < 4294967295
           \<and> (\<forall>(box', q') \<in> set es2.
                 pixel_number (Num (3 * 1)) (Num 1) box' q' \<noteq> Num (Y * (3 * 1) + X))
           \<longrightarrow> pixel_at (3 * 1) (bm_data bm) X Y = selected box q"
    and un: "\<forall>X Y. 0 \<le> X \<and> X < 3 * 1 \<and> 0 \<le> Y \<and> Y < 1 * 1
           \<and> Num (Y * (3 * 1) + X) \<notin> set (numbers gap_example)
           \<longrightarrow> pixel_at (3 * 1) (bm_data bm) X Y = [Num 0, Num 0, Num 0, Num 255]"
    and pm: "\<forall>p'. p_size p' = p_size gap_example \<and> p_boxSize p' = p_boxSize gap_example
           \<and> mset (p_data p') = mset (p_data gap_example)
           \<longrightarrow> mset (numbers p') = mset (numbers gap_example)
               \<and> (distinct (numbers gap_example) \<longrightarrow> unpack 12 p' = unpack 12 gap_example)"
    by blast
  have r: "pixel_at 3 (bm_data bm) 2 0 = [Num 10, Num 20, Num 30, Num 255]"
    using wr [rule_format, of "[]" box_right "\<lparr>pp_x = Num 0, pp_y = Num 0, pp_index = Num 0\<rparr>"
        "[(box_left, \<lparr>pp_x = Num 0, pp_y = Num 0, pp_index = Num 1\<rparr>)]" 2 0]
    by (simp add: entries_gap box_right_def box_left_def position_def selected_def pixel_number_def)
  have l: "pixel_at 3 (bm_data bm) 0 0 = [Num 90, Num 80, Num 70, Num 255]"
    using wr [rule_format, of "[(box_right, \<lparr>pp_x = Num 0, pp_y = Num 0, pp_index = Num 0\<rparr>)]"
        box_left "\<lparr>pp_x = Num 0, pp_y = Num 0, pp_index = Num 1\<rparr>" "[]" 0 0]
    by (simp add: entries_gap box_left_def position_def selected_def)
  have m: "pixel_at 3 (bm_data bm) 1 0 = [Num 0, Num 0, Num 0, Num 255]"
    using un [rule_format, of 1 0] by (simp add: numbers_gap)
  have "p_size gap_swapped = p_size gap_example \<and> p_boxSize gap_swapped = p_boxSize gap_example
      \<and> mset (p_data gap_swapped) = mset (p_data gap_example)"
    by (simp add: gap_swapped_def gap_example_def add.commute)
  moreover have "distinct (numbers gap_example)"
    by (simp add: numbers_gap)
  ultimately have s: "unpack 12 gap_swapped = unpack 12 gap_example"
    using pm by blast
  from d have d': "bm_width bm = Num 3" "bm_height bm = Num 1" "12 \<le> length (bm_data bm)"
    by simp_all
  from u d' r l m s
  have "\<exists>bm. unpack 12 gap_example = Inr bm
        \<and> bm_width bm = Num 3 \<and> bm_height bm = Num 1 \<and> 12 \<le> length (bm_data bm)
        \<and> pixel_at 3 (bm_data bm) 2 0 = [Num 10, Num 20, Num 30, Num 255]
        \<and> pixel_at 3 (bm_data bm) 0 0 = [Num 90, Num 80, Num 70, Num 255]
        \<and> pixel_at 3 (bm_data bm) 1 0 = [Num 0, Num 0, Num 0, Num 255]
        \<and> unpack 12 gap_swapped = unpack 12 gap_example"
    by blast
  with f lim cap show ?thesis
    by blast
qed

text \<open>
  C3 as stated fails for large images. With \<open>size.width\<close>, \<open>size.height\<close> and \<open>boxSize\<close>
  all 255 the buffer would have \<open>65025 * 65025 * 4\<close> elements, more than any array can
  have: \<open>unpack\<close> throws on every engine instead of returning an image.
\<close>

theorem unpack_array_length_counterexample:
  "is_byte (p_boxSize huge_example) \<and> is_byte (width (p_size huge_example))
   \<and> is_byte (height (p_size huge_example))
   \<and> (\<forall>cap. unpack cap huge_example = Inl RangeError)"
  by (simp add: huge_example_def unpack_def filled_array_def new_array_length_def)

text \<open>
  Below the limit of the language the capacity of the engine decides: a grid of
  \<open>60 \<times> 60\<close> tiles of \<open>100 \<times> 100\<close> pixels needs 144000000 elements, and \<open>unpack\<close>
  throws on an engine whose arrays hold fewer.
\<close>

lemma unpack_capacity:
  "unpack cap large_example = (if 144000000 \<le> cap
     then Inr \<lparr>bm_width = Num 6000, bm_height = Num 6000, bm_data = blank 144000000\<rparr>
     else Inl RangeError)"
  by (simp add: large_example_def unpack_def filled_array_def new_array_length_def Let_def)

section \<open>The grid of boxes\<close>

lemma x_loop_pos:
  assumes bs: "0 < bs" and k: "k \<le> n"
  shows "x_loop img (Num bs) (Num (int n * bs)) ys (Num (int k * bs)) data
     = Some (data @ map (\<lambda>i. make_box img (Num bs) (Num (int i * bs)) ys) [k..<n])"
  using k
proof (induction "n - k" arbitrary: k data)
  case 0
  then have "k = n" by simp
  then show ?case
    by (subst x_loop.simps) simp
next
  case (Suc d)
  then have kn: "k < n" and d: "d = n - Suc k" and le: "Suc k \<le> n" by simp_all
  from kn bs have lt: "int k * bs < int n * bs" by simp
  have nx: "js_add (Num (int k * bs)) (Num bs) = Num (int (Suc k) * bs)"
    by (simp add: algebra_simps)
  have "x_loop img (Num bs) (Num (int n * bs)) ys (Num (int k * bs)) data
      = x_loop img (Num bs) (Num (int n * bs)) ys (Num (int (Suc k) * bs))
          (data @ [make_box img (Num bs) (Num (int k * bs)) ys])"
    using lt by (subst x_loop.simps) (simp only: js_lt.simps if_True nx)
  also have "\<dots> = Some ((data @ [make_box img (Num bs) (Num (int k * bs)) ys])
          @ map (\<lambda>i. make_box img (Num bs) (Num (int i * bs)) ys) [Suc k..<n])"
    using d le by (rule Suc.hyps(1))
  also have "\<dots> = Some (data @ map (\<lambda>i. make_box img (Num bs) (Num (int i * bs)) ys) [k..<n])"
    using kn by (simp add: upt_conv_Cons)
  finally show ?case .
qed

lemma y_loop_pos:
  assumes bs: "0 < bs" and j: "j \<le> m"
  shows "y_loop img (Num bs) \<lparr>width = Num (int n * bs), height = Num (int m * bs)\<rparr> (Num (int j * bs)) data
     = Some (data @ concat (map (\<lambda>j. map (\<lambda>i. make_box img (Num bs) (Num (int i * bs)) (Num (int j * bs)))
                [0..<n]) [j..<m]))"
  using j
proof (induction "m - j" arbitrary: j data)
  case 0
  then have "j = m" by simp
  then show ?case
    by (subst y_loop.simps) simp
next
  case (Suc d)
  then have jm: "j < m" and d: "d = m - Suc j" and le: "Suc j \<le> m" by simp_all
  from jm bs have lt: "int j * bs < int m * bs" by simp
  let ?sz = "\<lparr>width = Num (int n * bs), height = Num (int m * bs)\<rparr>"
  let ?row = "\<lambda>j. map (\<lambda>i. make_box img (Num bs) (Num (int i * bs)) (Num (int j * bs))) [0..<n]"
  have nx: "js_add (Num (int j * bs)) (Num bs) = Num (int (Suc j) * bs)"
    by (simp add: algebra_simps)
  have xl: "x_loop img (Num bs) (Num (int n * bs)) (Num (int j * bs)) (Num 0) data = Some (data @ ?row j)"
    using x_loop_pos [OF bs, of 0 n img "Num (int j * bs)" data] by simp
  have "y_loop img (Num bs) ?sz (Num (int j * bs)) data
      = y_loop img (Num bs) ?sz (Num (int (Suc j) * bs)) (data @ ?row j)"
    using lt by (subst y_loop.simps) (simp add: xl nx del: js_add.simps)
  also have "\<dots> = Some ((data @ ?row j) @ concat (map ?row [Suc j..<m]))"
    using d le by (rule Suc.hyps(1))
  also have "\<dots> = Some (data @ concat (map ?row [j..<m]))"
    using jm by (simp add: upt_conv_Cons)
  finally show ?case .
qed


lemma crop_multiple:
  assumes "0 < bs"
  shows "js_sub (Num (int w)) (js_rem (Num (int w)) (Num bs)) = Num (int (nat (int w div bs)) * bs)"
proof -
  have "sgn (int w) * (\<bar>int w\<bar> mod \<bar>bs\<bar>) = int w mod bs"
    using assms by (cases "w = 0") simp_all
  moreover have "int w - int w mod bs = int w div bs * bs"
    by (simp add: minus_mod_eq_div_mult)
  moreover have "0 \<le> int w div bs"
    using assms by (simp add: pos_imp_zdiv_nonneg_iff)
  ultimately show ?thesis
    using assms by simp
qed

lemma js_div_multiple: "0 < bs \<Longrightarrow> js_div (Num (int k * bs)) (Num bs) = Num (int k)"
  by simp

text \<open>The result of \<open>boxify\<close> for a positive \<open>boxSize\<close>.\<close>

lemma boxify_pos:
  assumes bs: "0 < bs"
  shows "boxify img (Num bs)
     = Some \<lparr>b_size = \<lparr>width = Num (int (i_width img) div bs), height = Num (int (i_height img) div bs)\<rparr>,
             b_boxSize = Num bs,
             b_data = concat (map (\<lambda>j. map (\<lambda>i. make_box img (Num bs) (Num (int i * bs)) (Num (int j * bs)))
                        [0..<nat (int (i_width img) div bs)]) [0..<nat (int (i_height img) div bs)])\<rparr>"
proof -
  define n where "n = nat (int (i_width img) div bs)"
  define m where "m = nat (int (i_height img) div bs)"
  have nm: "int n = int (i_width img) div bs" "int m = int (i_height img) div bs"
    using bs by (simp_all add: n_def m_def pos_imp_zdiv_nonneg_iff)
  have sz: "js_sub (Num (int (i_width img))) (js_rem (Num (int (i_width img))) (Num bs)) = Num (int n * bs)"
    "js_sub (Num (int (i_height img))) (js_rem (Num (int (i_height img))) (Num bs)) = Num (int m * bs)"
    unfolding n_def m_def using bs by (rule crop_multiple)+
  have yl: "y_loop img (Num bs) \<lparr>width = Num (int n * bs), height = Num (int m * bs)\<rparr> (Num 0) []
      = Some (concat (map (\<lambda>j. map (\<lambda>i. make_box img (Num bs) (Num (int i * bs)) (Num (int j * bs)))
                [0..<n]) [0..<m]))"
    using y_loop_pos [OF bs, of 0 m img n "[]"] by simp
  show ?thesis
    unfolding boxify_def Let_def sz
    by (simp add: yl js_div_multiple [OF bs] nm [symmetric] n_def [symmetric] m_def [symmetric]
        del: js_div.simps)
qed

lemma make_box_coords:
  assumes "0 < bs"
  shows "bx_x (make_box img (Num bs) (Num (int i * bs)) (Num (int j * bs))) = Num (int i)"
    and "bx_y (make_box img (Num bs) (Num (int i * bs)) (Num (int j * bs))) = Num (int j)"
    and "map (\<lambda>q. (px_x q, px_y q)) (bx_data (make_box img (Num bs) (Num (int i * bs)) (Num (int j * bs))))
           = row_major_coords (nat bs) (nat bs)"
  using assms
  by (simp_all add: make_box_def make_pixel_def row_major_coords_def map_concat comp_def Let_def)


lemma length_grid: "length (concat (map (\<lambda>j. map (f j) [0..<n]) [0..<m])) = n * m"
  by (simp add: grid_as_map mult.commute)

text \<open>
  C6. For every image of width \<open>w\<close> and height \<open>h\<close> and every positive integer
  \<open>boxSize\<close>, \<open>boxify\<close> returns; \<open>size.width\<close> is \<open>w div boxSize\<close> and \<open>size.height\<close>
  is \<open>h div boxSize\<close>; the number of boxes is their product; the boxes come in row-major
  order of their grid coordinates, and the pixels of every box in row-major order of their
  local coordinates.
\<close>

theorem boxify_dimensions:
  assumes bs: "0 < bs"
  shows "\<exists>b. boxify img (Num bs) = Some b
     \<and> width (b_size b) = Num (int (i_width img) div bs)
     \<and> height (b_size b) = Num (int (i_height img) div bs)
     \<and> int (length (b_data b)) = (int (i_width img) div bs) * (int (i_height img) div bs)
     \<and> map (\<lambda>box. (bx_x box, bx_y box)) (b_data b)
          = row_major_coords (nat (int (i_width img) div bs)) (nat (int (i_height img) div bs))
     \<and> list_all (\<lambda>box. map (\<lambda>q. (px_x q, px_y q)) (bx_data box)
                          = row_major_coords (nat bs) (nat bs)) (b_data b)"
proof -
  define n where "n = nat (int (i_width img) div bs)"
  define m where "m = nat (int (i_height img) div bs)"
  define boxes where "boxes = concat (map (\<lambda>j. map (\<lambda>i. make_box img (Num bs) (Num (int i * bs)) (Num (int j * bs)))
                        [0..<n]) [0..<m])"
  define b where "b = \<lparr>b_size = \<lparr>width = Num (int (i_width img) div bs), height = Num (int (i_height img) div bs)\<rparr>,
             b_boxSize = Num bs, b_data = boxes\<rparr>"
  have nm: "int n = int (i_width img) div bs" "int m = int (i_height img) div bs"
    using bs by (simp_all add: n_def m_def pos_imp_zdiv_nonneg_iff)
  have r: "boxify img (Num bs) = Some b"
    unfolding b_def boxes_def n_def m_def using bs by (rule boxify_pos)
  have l: "length boxes = n * m"
    unfolding boxes_def by (rule length_grid)
  then have l': "int (length (b_data b)) = (int (i_width img) div bs) * (int (i_height img) div bs)"
    by (simp add: b_def nm [symmetric])
  have c: "map (\<lambda>box. (bx_x box, bx_y box)) boxes = row_major_coords n m"
    unfolding boxes_def row_major_coords_def
    by (simp add: map_concat comp_def make_box_coords [OF bs])
  have p: "list_all (\<lambda>box. map (\<lambda>q. (px_x q, px_y q)) (bx_data box) = row_major_coords (nat bs) (nat bs)) boxes"
    unfolding boxes_def list_all_iff
    by (auto simp: make_box_coords [OF bs])
  show ?thesis
  proof (intro exI [of _ b] conjI)
    show "boxify img (Num bs) = Some b" by (rule r)
    show "width (b_size b) = Num (int (i_width img) div bs)"
      "height (b_size b) = Num (int (i_height img) div bs)"
      by (simp_all add: b_def)
    show "int (length (b_data b)) = (int (i_width img) div bs) * (int (i_height img) div bs)"
      by (rule l')
    show "map (\<lambda>box. (bx_x box, bx_y box)) (b_data b)
          = row_major_coords (nat (int (i_width img) div bs)) (nat (int (i_height img) div bs))"
      using c by (simp add: b_def n_def m_def)
    show "list_all (\<lambda>box. map (\<lambda>q. (px_x q, px_y q)) (bx_data box)
                          = row_major_coords (nat bs) (nat bs)) (b_data b)"
      using p by (simp add: b_def)
  qed
qed

section \<open>Box sizes that are not positive\<close>

lemma js_lt_step:
  assumes "js_lt v (Num s)" "b < 0"
  shows "js_lt (js_add v (Num b)) (Num s)"
  using assms by (cases v) simp_all

lemma js_ltE:
  assumes "js_lt v u"
  obtains s where "u = Num s"
  using assms by (cases "(v, u)" rule: js_lt.cases) simp_all

lemma y_loop_negative_aux:
  assumes "y_loop img boxSize sz yStart data = Some res"
  shows "\<not> (\<exists>b. boxSize = Num b \<and> b < 0 \<and> js_lt yStart (height sz))"
proof (rule y_loop.raw_induct [where P = "\<lambda>img boxSize sz yStart data res.
      \<not> (\<exists>b. boxSize = Num b \<and> b < 0 \<and> js_lt yStart (height sz))", OF _ assms])
  fix f :: "image \<Rightarrow> jsval \<Rightarrow> dims \<Rightarrow> jsval \<Rightarrow> box list \<Rightarrow> box list option"
    and img boxSize sz yStart data res
  assume IH: "\<And>a b c d e y. f a b c d e = Some y
      \<Longrightarrow> \<not> (\<exists>bb. b = Num bb \<and> bb < 0 \<and> js_lt d (height c))"
    and eq: "(if js_lt yStart (height sz)
      then Option.bind (x_loop img boxSize (width sz) yStart (Num 0) data)
            (f img boxSize sz (js_add yStart boxSize))
      else Some data) = Some res"
  show "\<not> (\<exists>b. boxSize = Num b \<and> b < 0 \<and> js_lt yStart (height sz))"
  proof
    assume "\<exists>b. boxSize = Num b \<and> b < 0 \<and> js_lt yStart (height sz)"
    then obtain b where b: "boxSize = Num b" "b < 0" and lt: "js_lt yStart (height sz)"
      by blast
    from lt obtain s where s: "height sz = Num s" by (rule js_ltE)
    from eq lt obtain data' where "f img boxSize sz (js_add yStart boxSize) data' = Some res"
      by (auto simp: bind_eq_Some_conv)
    from IH [OF this] b have "\<not> js_lt (js_add yStart boxSize) (height sz)"
      by blast
    moreover have "js_lt (js_add yStart boxSize) (height sz)"
      unfolding b s using lt [unfolded s] b(2) by (rule js_lt_step)
    ultimately show False ..
  qed
qed

text \<open>With a negative \<open>boxSize\<close> the \<open>yStart\<close> loop never ends once it has started.\<close>

lemma y_loop_negative:
  assumes "b < 0" "js_lt yStart (height sz)"
  shows "y_loop img (Num b) sz yStart data = None"
proof (cases "y_loop img (Num b) sz yStart data")
  case None
  then show ?thesis .
next
  case (Some res)
  from y_loop_negative_aux [OF this] assms show ?thesis by blast
qed

lemma boxify_negative:
  assumes b: "b < 0" and h: "- b \<le> int (i_height img)"
  shows "boxify img (Num b) = None"
proof -
  have "int (i_height img) mod (- b) < - b"
    using b by simp
  with h have "0 < int (i_height img) - int (i_height img) mod (- b)"
    by linarith
  moreover have "sgn (int (i_height img)) * (\<bar>int (i_height img)\<bar> mod \<bar>b\<bar>) = int (i_height img) mod (- b)"
    using b h by (cases "i_height img = 0") simp_all
  ultimately have "0 < int (i_height img) - sgn (int (i_height img)) * (\<bar>int (i_height img)\<bar> mod \<bar>b\<bar>)"
    by simp
  then have "js_lt (Num 0) (js_sub (Num (int (i_height img))) (js_rem (Num (int (i_height img))) (Num b)))"
    using b by simp
  then show ?thesis
    unfolding boxify_def Let_def
    by (subst y_loop_negative [OF b]) simp_all
qed

lemma boxify_zero:
  "boxify img (Num 0) = Some \<lparr>b_size = \<lparr>width = NaN, height = NaN\<rparr>, b_boxSize = Num 0, b_data = []\<rparr>"
  unfolding boxify_def Let_def
  by (subst y_loop.simps) simp

section \<open>Examples of boxify\<close>

text \<open>A \<open>5 \<times> 3\<close> image with \<open>boxSize\<close> 2: two tiles in one row, of four pixels each.\<close>

theorem boxify_dimensions_witness:
  "(0::int) < 2
   \<and> (\<exists>b. boxify small_image (Num 2) = Some b
        \<and> width (b_size b) = Num 2 \<and> height (b_size b) = Num 1
        \<and> length (b_data b) = 2
        \<and> map (\<lambda>box. (bx_x box, bx_y box)) (b_data b) = [(Num 0, Num 0), (Num 1, Num 0)]
        \<and> list_all (\<lambda>box. map (\<lambda>q. (px_x q, px_y q)) (bx_data box)
              = [(Num 0, Num 0), (Num 1, Num 0), (Num 0, Num 1), (Num 1, Num 1)]) (b_data b))"
proof -
  have p: "(0::int) < 2" by simp
  have d: "int (i_width small_image) div 2 = 2" "int (i_height small_image) div 2 = 1"
    by (simp_all add: small_image_def)
  have c: "row_major_coords 2 1 = [(Num 0, Num 0), (Num 1, Num 0)]"
    "row_major_coords 2 2 = [(Num 0, Num 0), (Num 1, Num 0), (Num 0, Num 1), (Num 1, Num 1)]"
    by (simp_all add: row_major_coords_def upt_conv_Cons numeral_2_eq_2)
  from boxify_dimensions [OF p, of small_image]
  obtain b where "boxify small_image (Num 2) = Some b"
    "width (b_size b) = Num 2" "height (b_size b) = Num 1"
    "int (length (b_data b)) = 2 * 1"
    "map (\<lambda>box. (bx_x box, bx_y box)) (b_data b) = row_major_coords 2 1"
    "list_all (\<lambda>box. map (\<lambda>q. (px_x q, px_y q)) (bx_data box) = row_major_coords 2 2) (b_data b)"
    unfolding d by (auto simp: numeral_2_eq_2)
  then have "boxify small_image (Num 2) = Some b
        \<and> width (b_size b) = Num 2 \<and> height (b_size b) = Num 1
        \<and> length (b_data b) = 2
        \<and> map (\<lambda>box. (bx_x box, bx_y box)) (b_data b) = [(Num 0, Num 0), (Num 1, Num 0)]
        \<and> list_all (\<lambda>box. map (\<lambda>q. (px_x q, px_y q)) (bx_data box)
              = [(Num 0, Num 0), (Num 1, Num 0), (Num 0, Num 1), (Num 1, Num 1)]) (b_data b)"
    unfolding c by simp
  then have "\<exists>b. boxify small_image (Num 2) = Some b
        \<and> width (b_size b) = Num 2 \<and> height (b_size b) = Num 1
        \<and> length (b_data b) = 2
        \<and> map (\<lambda>box. (bx_x box, bx_y box)) (b_data b) = [(Num 0, Num 0), (Num 1, Num 0)]
        \<and> list_all (\<lambda>box. map (\<lambda>q. (px_x q, px_y q)) (bx_data box)
              = [(Num 0, Num 0), (Num 1, Num 0), (Num 0, Num 1), (Num 1, Num 1)]) (b_data b)"
    by (rule exI)
  with p show ?thesis by (rule conjI)
qed

text \<open>
  What \<open>compress\<close> does with the three kinds of \<open>boxSize\<close>: a positive one gives a boxed
  image; zero stops with the message; a negative one passes the test and, for an image at
  least \<open>- boxSize\<close> pixels high, \<open>boxify\<close> never returns.
\<close>

lemma compress_boxify_positive:
  "0 < bs \<Longrightarrow> \<exists>b. compress_boxify img (Num bs) = Some (Inr b)"
  by (simp add: compress_boxify_def boxify_pos)

lemma compress_boxify_zero: "compress_boxify img (Num 0) = Some (Inl InvalidParameter)"
  by (simp add: compress_boxify_def)

lemma compress_boxify_negative:
  "bs < 0 \<Longrightarrow> - bs \<le> int (i_height img) \<Longrightarrow> compress_boxify img (Num bs) = None"
  by (simp add: compress_boxify_def boxify_negative)

text \<open>
  C8, at the failing input. With \<open>boxSize = -2\<close> and the \<open>5 \<times> 3\<close> image neither
  \<open>compress\<close> nor \<open>boxify\<close> reports an invalid parameter: the loops never end.
\<close>

theorem negative_box_size_never_returns:
  "compress_boxify small_image (Num (- 2)) = None \<and> boxify small_image (Num (- 2)) = None"
  by (simp add: compress_boxify_def boxify_negative small_image_def)

section \<open>The partition of a box\<close>

lemma getLuminance_numeric:
  assumes "numeric_colour c"
  obtains l where "getLuminance fl c = D l"
proof -
  from assms obtain r g b where "col_r c = Num r" "col_g c = Num g" "col_b c = Num b"
    unfolding numeric_colour_def
    by (cases "col_r c"; cases "col_g c"; cases "col_b c") simp_all
  then have "getLuminance fl c = D (luminance fl r g b)"
    by (simp add: getLuminance_def)
  with that show thesis .
qed

lemma fold_luminance_numeric:
  assumes "list_all (\<lambda>q. numeric_colour (px_color q)) qs"
  shows "\<exists>t. fold (\<lambda>current accumulator. d_add fl accumulator (getLuminance fl (px_color current)))
            qs (D a) = D t"
  using assms
proof (induction qs arbitrary: a)
  case Nil
  then show ?case by simp
next
  case (Cons q qs)
  from Cons.prems have "numeric_colour (px_color q)" by simp
  then obtain l where "getLuminance fl (px_color q) = D l"
    by (rule getLuminance_numeric)
  with Cons show ?case by simp
qed

lemma averageLuminance_numeric:
  assumes "list_all (\<lambda>q. numeric_colour (px_color q)) (bx_data box)" "bx_data box \<noteq> []"
  obtains a where "averageLuminance fl box = D a"
proof -
  from fold_luminance_numeric [OF assms(1)] obtain t where "totalLuminance fl box = D t"
    unfolding totalLuminance_def by blast
  with assms(2) have "averageLuminance fl box = D (fl (t / real (length (bx_data box))))"
    by (simp add: averageLuminance_def)
  with that show thesis .
qed

text \<open>The counts of the two partitions, for the loop started from any sums.\<close>

lemma fold_totals_counts:
  fixes ts :: totals
  defines "step \<equiv> \<lambda>fl box pixel (ts :: totals).
             if is_light fl box pixel then ts\<lparr>light := add_pixel pixel (light ts)\<rparr>
             else ts\<lparr>dark := add_pixel pixel (dark ts)\<rparr>"
  shows "t_n (light (fold (step fl box) qs ts)) = t_n (light ts) + length (filter (is_light fl box) qs)
       \<and> t_n (dark (fold (step fl box) qs ts)) = t_n (dark ts) + length (filter (\<lambda>q. \<not> is_light fl box q) qs)"
  by (induction qs arbitrary: ts) (simp_all add: step_def add_pixel_def)

lemma box_totals_counts:
  "t_n (light (box_totals fl box)) = length (filter (is_light fl box) (bx_data box))"
  "t_n (dark (box_totals fl box)) = length (filter (\<lambda>q. \<not> is_light fl box q) (bx_data box))"
  using fold_totals_counts [of fl box "bx_data box"]
  by (simp_all add: box_totals_def)

lemma counts_sum:
  "t_n (light (box_totals fl box)) + t_n (dark (box_totals fl box)) = length (bx_data box)"
  unfolding box_totals_counts by (rule sum_length_filter_compl)




lemma pack_nth:
  "k < length (b_data boxed) \<Longrightarrow> p_data (pack fl boxed) ! k = pack_box fl (b_data boxed ! k)"
  by (simp add: pack_def)

lemma index_counts:
  "length (filter (\<lambda>q. pp_index q = Num 1) (pb_data (pack_box fl box)))
     = length (filter (is_light fl box) (bx_data box))"
  "length (filter (\<lambda>q. pp_index q = Num 0) (pb_data (pack_box fl box)))
     = length (filter (\<lambda>q. \<not> is_light fl box q) (bx_data box))"
  by (simp_all add: pack_box_def filter_map comp_def)

lemma tile_inside:
  assumes "0 < bs" "i < nat (w div bs)" "0 \<le> x" "x < bs"
  shows "0 \<le> int i * bs + x" and "int i * bs + x < (w::int)"
proof -
  from assms show "0 \<le> int i * bs + x" by simp
  from assms have "int i + 1 \<le> w div bs" by simp
  with assms(1) have "(int i + 1) * bs \<le> (w div bs) * bs"
    by (simp add: mult_right_mono)
  also have "\<dots> \<le> w"
    using assms(1) by (simp add: minus_mod_eq_div_mult [symmetric])
  finally show "int i * bs + x < w"
    using assms(4) by (simp add: algebra_simps)
qed

lemma make_pixel_numeric:
  assumes wf: "length (i_data img) = 4 * i_width img * i_height img"
    and X: "0 \<le> X" "X < int (i_width img)" and Y: "0 \<le> Y" "Y < int (i_height img)"
    and xy: "X = xs + x" "Y = ys + y"
  shows "numeric_colour (px_color (make_pixel img (Num xs) (Num ys) x y))"
proof -
  define m where "m = Y * int (i_width img) + X"
  have m: "0 \<le> m" "m < int (i_width img) * int (i_height img)"
    using cell_bound [OF X Y] by (simp_all add: m_def)
  then have "nat (m * 4 + 2) < length (i_data img)"
    using wf by (simp add: nat_less_iff)
  with m have "is_num (u8get (i_data img) (Num (m * 4)))"
    "is_num (u8get (i_data img) (Num (m * 4 + 1)))" "is_num (u8get (i_data img) (Num (m * 4 + 2)))"
    by (simp_all add: nat_less_iff)
  then show ?thesis
    by (simp add: make_pixel_def numeric_colour_def Let_def m_def xy del: u8get.simps)
qed


lemma set_js_range: "set (js_range (Num bs)) = {x. 0 \<le> x \<and> x < bs}"
proof -
  have "int ` {0..<nat bs} = {x. 0 \<le> x \<and> x < bs}"
  proof (intro set_eqI iffI)
    fix x assume "x \<in> int ` {0..<nat bs}"
    then show "x \<in> {x. 0 \<le> x \<and> x < bs}" by auto
  next
    fix x assume "x \<in> {x. 0 \<le> x \<and> x < bs}"
    then have "nat x \<in> {0..<nat bs}" "x = int (nat x)" by auto
    then show "x \<in> int ` {0..<nat bs}" by (rule rev_image_eqI)
  qed
  then show ?thesis by simp
qed

lemma length_make_box:
  "0 \<le> bs \<Longrightarrow> length (bx_data (make_box img (Num bs) xs ys)) = nat bs * nat bs"
  unfolding make_box_def by (simp add: js_grid del: js_range.simps)

lemma make_box_numeric:
  assumes wf: "length (i_data img) = 4 * i_width img * i_height img"
    and bs: "0 < bs"
    and i: "i < nat (int (i_width img) div bs)" and j: "j < nat (int (i_height img) div bs)"
  shows "list_all (\<lambda>q. numeric_colour (px_color q))
           (bx_data (make_box img (Num bs) (Num (int i * bs)) (Num (int j * bs))))"
proof -
  have "numeric_colour (px_color (make_pixel img (Num (int i * bs)) (Num (int j * bs)) x y))"
    if "0 \<le> x" "x < bs" "0 \<le> y" "y < bs" for x y
    using wf tile_inside [OF bs i that(1,2)] tile_inside [OF bs j that(3,4)]
    by (rule make_pixel_numeric) simp_all
  then show ?thesis
    unfolding make_box_def list_all_iff by (auto simp: set_js_range)
qed

text \<open>The boxes of a decoded image: \<open>boxSize\<^sup>2\<close> pixels each, every colour read from the buffer.\<close>

lemma boxify_boxes:
  assumes wf: "length (i_data img) = 4 * i_width img * i_height img" and bs: "0 < bs"
  shows "\<exists>b. boxify img (Num bs) = Some b
      \<and> list_all (\<lambda>box. length (bx_data box) = nat bs * nat bs
                     \<and> list_all (\<lambda>q. numeric_colour (px_color q)) (bx_data box)) (b_data b)"
proof -
  let ?boxes = "concat (map (\<lambda>j. map (\<lambda>i. make_box img (Num bs) (Num (int i * bs)) (Num (int j * bs)))
                        [0..<nat (int (i_width img) div bs)]) [0..<nat (int (i_height img) div bs)])"
  have "list_all (\<lambda>box. length (bx_data box) = nat bs * nat bs
                     \<and> list_all (\<lambda>q. numeric_colour (px_color q)) (bx_data box)) ?boxes"
  proof -
    have "length (bx_data (make_box img (Num bs) (Num (int i * bs)) (Num (int j * bs)))) = nat bs * nat bs
        \<and> list_all (\<lambda>q. numeric_colour (px_color q))
             (bx_data (make_box img (Num bs) (Num (int i * bs)) (Num (int j * bs))))"
      if "i < nat (int (i_width img) div bs)" "j < nat (int (i_height img) div bs)" for i j
      using bs make_box_numeric [OF wf bs that] by (simp add: length_make_box)
    then show ?thesis
      unfolding list_all_iff by auto
  qed
  then show ?thesis
    unfolding boxify_pos [OF bs] by simp
qed

lemma foldl_plus: "foldl (\<lambda>s l. s + l) a ls = a + sum_list (ls :: real list)"
  by (induction ls arbitrary: a) simp_all

lemma exact_mean: "rounded_mean (\<lambda>x. x) ls = sum_list ls / real (length ls)"
  by (simp add: rounded_mean_def foldl_plus)

lemma luminances_numeric:
  assumes "list_all (\<lambda>q. numeric_colour (px_color q)) qs"
  shows "\<exists>ls. map (\<lambda>q. getLuminance fl (px_color q)) qs = map D ls"
  using assms
proof (induction qs)
  case Nil
  then show ?case by simp
next
  case (Cons q qs)
  then obtain ls where ls: "map (\<lambda>q. getLuminance fl (px_color q)) qs = map D ls"
    by auto
  from Cons.prems have "numeric_colour (px_color q)" by simp
  then obtain l where "getLuminance fl (px_color q) = D l"
    by (rule getLuminance_numeric)
  with ls have "map (\<lambda>q. getLuminance fl (px_color q)) (q # qs) = map D (l # ls)"
    by simp
  then show ?case by blast
qed

lemma fold_luminances:
  assumes "map (\<lambda>q. getLuminance fl (px_color q)) qs = map D ls"
  shows "fold (\<lambda>current accumulator. d_add fl accumulator (getLuminance fl (px_color current)))
            qs (D a) = D (foldl (\<lambda>s l. fl (s + l)) a ls)"
  using assms
proof (induction qs arbitrary: a ls)
  case Nil
  then show ?case by simp
next
  case (Cons q qs)
  then obtain l ls' where ls: "ls = l # ls'" "getLuminance fl (px_color q) = D l"
    "map (\<lambda>q. getLuminance fl (px_color q)) qs = map D ls'"
    by (cases ls) auto
  from Cons.IH [OF ls(3)] show ?case
    by (simp add: ls)
qed

lemma averageLuminance_mean:
  assumes "map (\<lambda>q. getLuminance fl (px_color q)) (bx_data box) = map D ls" "bx_data box \<noteq> []"
  shows "averageLuminance fl box = D (rounded_mean fl ls)"
proof -
  from assms(1) have n: "length (bx_data box) = length ls"
    by (rule map_eq_imp_length_eq)
  with assms(2) have "ls \<noteq> []"
    by auto
  with n fold_luminances [OF assms(1), of 0] show ?thesis
    by (simp add: averageLuminance_def totalLuminance_def rounded_mean_def)
qed

lemma index_by_mean:
  assumes ls: "map (\<lambda>q. getLuminance fl (px_color q)) (bx_data box) = map D ls"
    and ne: "bx_data box \<noteq> []" and i: "i < length ls"
  shows "pp_index (pb_data (pack_box fl box) ! i)
     = (if rounded_mean fl ls \<le> ls ! i then Num 1 else Num 0)"
proof -
  from ls have n: "length (bx_data box) = length ls"
    by (rule map_eq_imp_length_eq)
  from ls i n have "map (\<lambda>q. getLuminance fl (px_color q)) (bx_data box) ! i = map D ls ! i"
    by simp
  with i n have l: "getLuminance fl (px_color (bx_data box ! i)) = D (ls ! i)"
    by simp
  show ?thesis
    using i n by (simp add: pack_box_def is_light_def l averageLuminance_mean [OF ls ne])
qed

text \<open>
  C2 (as amended). For every box of a decoded image cut into tiles of a positive
  \<open>boxSize\<close>: the luminances of its \<open>boxSize\<^sup>2\<close> pixels are numbers; the mean that
  \<open>pack\<close> compares with is \<open>rounded_mean\<close> of them, that is their sum taken from left
  to right and divided by their number, every operation rounded (with exact arithmetic it
  is the arithmetic mean); a pixel's index is 1 exactly when its luminance is at least this
  mean and 0 exactly when it is below it; the light count is the number of indices 1, the
  dark count the number of indices 0, and the two counts add up to \<open>boxSize\<^sup>2\<close>.
\<close>

theorem pack_partition:
  assumes wf: "length (i_data img) = 4 * i_width img * i_height img" and bs: "0 < bs"
  shows "\<exists>b. boxify img (Num bs) = Some b
     \<and> length (p_data (pack fl b)) = length (b_data b)
     \<and> (\<forall>k < length (b_data b). \<exists>ls.
          map (\<lambda>q. getLuminance fl (px_color q)) (bx_data (b_data b ! k)) = map D ls
          \<and> length ls = nat bs * nat bs
          \<and> length (pb_data (p_data (pack fl b) ! k)) = nat bs * nat bs
          \<and> averageLuminance fl (b_data b ! k) = D (rounded_mean fl ls)
          \<and> rounded_mean (\<lambda>x. x) ls = sum_list ls / real (length ls)
          \<and> (\<forall>i < length ls.
               (pp_index (pb_data (p_data (pack fl b) ! k) ! i) = Num 1 \<longleftrightarrow> rounded_mean fl ls \<le> ls ! i)
               \<and> (pp_index (pb_data (p_data (pack fl b) ! k) ! i) = Num 0 \<longleftrightarrow> ls ! i < rounded_mean fl ls))
          \<and> t_n (light (box_totals fl (b_data b ! k)))
               = length (filter (\<lambda>q. pp_index q = Num 1) (pb_data (p_data (pack fl b) ! k)))
          \<and> t_n (dark (box_totals fl (b_data b ! k)))
               = length (filter (\<lambda>q. pp_index q = Num 0) (pb_data (p_data (pack fl b) ! k)))
          \<and> t_n (light (box_totals fl (b_data b ! k))) + t_n (dark (box_totals fl (b_data b ! k)))
               = nat bs * nat bs)"
proof -
  from boxify_boxes [OF wf bs] obtain b where b: "boxify img (Num bs) = Some b"
    and boxes: "list_all (\<lambda>box. length (bx_data box) = nat bs * nat bs
                     \<and> list_all (\<lambda>q. numeric_colour (px_color q)) (bx_data box)) (b_data b)"
    by blast
  have per_box: "\<exists>ls.
          map (\<lambda>q. getLuminance fl (px_color q)) (bx_data (b_data b ! k)) = map D ls
          \<and> length ls = nat bs * nat bs
          \<and> length (pb_data (p_data (pack fl b) ! k)) = nat bs * nat bs
          \<and> averageLuminance fl (b_data b ! k) = D (rounded_mean fl ls)
          \<and> rounded_mean (\<lambda>x. x) ls = sum_list ls / real (length ls)
          \<and> (\<forall>i < length ls.
               (pp_index (pb_data (p_data (pack fl b) ! k) ! i) = Num 1 \<longleftrightarrow> rounded_mean fl ls \<le> ls ! i)
               \<and> (pp_index (pb_data (p_data (pack fl b) ! k) ! i) = Num 0 \<longleftrightarrow> ls ! i < rounded_mean fl ls))
          \<and> t_n (light (box_totals fl (b_data b ! k)))
               = length (filter (\<lambda>q. pp_index q = Num 1) (pb_data (p_data (pack fl b) ! k)))
          \<and> t_n (dark (box_totals fl (b_data b ! k)))
               = length (filter (\<lambda>q. pp_index q = Num 0) (pb_data (p_data (pack fl b) ! k)))
          \<and> t_n (light (box_totals fl (b_data b ! k))) + t_n (dark (box_totals fl (b_data b ! k)))
               = nat bs * nat bs"
    if k: "k < length (b_data b)" for k
  proof -
    define box where "box = b_data b ! k"
    have pk: "p_data (pack fl b) ! k = pack_box fl box"
      unfolding box_def using k by (rule pack_nth)
    from boxes k have n: "length (bx_data box) = nat bs * nat bs"
      and num: "list_all (\<lambda>q. numeric_colour (px_color q)) (bx_data box)"
      by (simp_all add: box_def list_all_length)
    from bs have "0 < nat bs * nat bs" by simp
    with n have ne: "bx_data box \<noteq> []" by auto
    from luminances_numeric [OF num] obtain ls
      where ls: "map (\<lambda>q. getLuminance fl (px_color q)) (bx_data box) = map D ls"
      by blast
    from ls have "length (bx_data box) = length ls"
      by (rule map_eq_imp_length_eq)
    with n have len: "length ls = nat bs * nat bs" by simp
    have pl: "length (pb_data (pack_box fl box)) = nat bs * nat bs"
      using n by (simp add: pack_box_def)
    have ix: "(pp_index (pb_data (pack_box fl box) ! i) = Num 1 \<longleftrightarrow> rounded_mean fl ls \<le> ls ! i)
        \<and> (pp_index (pb_data (pack_box fl box) ! i) = Num 0 \<longleftrightarrow> ls ! i < rounded_mean fl ls)"
      if "i < length ls" for i
      unfolding index_by_mean [OF ls ne that] by auto
    note av = averageLuminance_mean [OF ls ne]
    note cs = counts_sum [of fl box, unfolded n]
    show ?thesis
      unfolding box_def [symmetric] pk index_counts
      using ls len pl av exact_mean [of ls] ix box_totals_counts [of fl box] cs
      by (intro exI [of _ ls] conjI allI impI) (assumption | simp)+
  qed
  have "length (p_data (pack fl b)) = length (b_data b)"
    by (simp add: pack_def)
  with b per_box show ?thesis
    by blast
qed

section \<open>The checkerboard, packed with exact arithmetic\<close>

lemma luminance_grey:
  assumes "0 \<le> v"
  shows "luminance (\<lambda>x. x) v v v = real_of_int v / 255"
proof -
  have e: "0.241 * real_of_int v * real_of_int v + 0.691 * real_of_int v * real_of_int v
      + 0.068 * real_of_int v * real_of_int v = (real_of_int v)\<^sup>2"
    by (simp add: power2_eq_square algebra_simps)
  have "luminance (\<lambda>x. x) v v v = sqrt ((real_of_int v)\<^sup>2) / 255"
    unfolding luminance_def e ..
  also have "\<dots> = real_of_int v / 255"
    using assms by simp
  finally show ?thesis .
qed

lemma components:
  "col_r black = Num 0" "col_g black = Num 0" "col_b black = Num 0"
  "col_r white = Num 255" "col_g white = Num 255" "col_b white = Num 255"
  by (simp_all add: black_def white_def)

lemma lum_black: "getLuminance (\<lambda>x. x) black = D 0"
  using luminance_grey [of 0] by (simp add: getLuminance_def components)

lemma lum_white: "getLuminance (\<lambda>x. x) white = D 1"
  using luminance_grey [of 255] by (simp add: getLuminance_def components)

lemma data_checker:
  "bx_data checker_box = [\<lparr>px_x = Num 0, px_y = Num 0, px_color = black\<rparr>,
                \<lparr>px_x = Num 1, px_y = Num 0, px_color = white\<rparr>,
                \<lparr>px_x = Num 0, px_y = Num 1, px_color = white\<rparr>,
                \<lparr>px_x = Num 1, px_y = Num 1, px_color = black\<rparr>]"
  by (simp add: checker_box_def)

lemma average_checker: "averageLuminance (\<lambda>x. x) checker_box = D (1 / 2)"
  by (simp add: averageLuminance_def totalLuminance_def data_checker lum_black lum_white)

lemma light_checker:
  "is_light (\<lambda>x. x) checker_box \<lparr>px_x = a, px_y = b, px_color = white\<rparr>"
  "\<not> is_light (\<lambda>x. x) checker_box \<lparr>px_x = a, px_y = b, px_color = black\<rparr>"
  by (simp_all add: is_light_def average_checker lum_black lum_white)

lemma totals_checker:
  "box_totals (\<lambda>x. x) checker_box
     = \<lparr>light = \<lparr>t_r = Num 510, t_g = Num 510, t_b = Num 510, t_n = 2\<rparr>,
        dark = \<lparr>t_r = Num 0, t_g = Num 0, t_b = Num 0, t_n = 2\<rparr>\<rparr>"
  by (simp add: box_totals_def data_checker light_checker add_pixel_def components)

lemma mean_checker:
  "mean_colour (\<lambda>x. x) \<lparr>t_r = Num 510, t_g = Num 510, t_b = Num 510, t_n = 2\<rparr> = white"
  "mean_colour (\<lambda>x. x) \<lparr>t_r = Num 0, t_g = Num 0, t_b = Num 0, t_n = 2\<rparr> = black"
  by (simp_all add: mean_colour_def white_def black_def)

lemma pack_box_checker:
  "pack_box (\<lambda>x. x) checker_box
     = \<lparr>pb_x = Num 0, pb_y = Num 0, pb_light = white, pb_dark = black,
                pb_data = [\<lparr>pp_x = Num 0, pp_y = Num 0, pp_index = Num 0\<rparr>,
                           \<lparr>pp_x = Num 1, pp_y = Num 0, pp_index = Num 1\<rparr>,
                           \<lparr>pp_x = Num 0, pp_y = Num 1, pp_index = Num 1\<rparr>,
                           \<lparr>pp_x = Num 1, pp_y = Num 1, pp_index = Num 0\<rparr>]\<rparr>"
  unfolding pack_box_def totals_checker
  by (simp add: mean_checker data_checker light_checker) (simp add: checker_box_def)

lemma pack_checker: "pack (\<lambda>x. x) checker_boxed = checker_packed"
  by (simp add: pack_def checker_boxed_def checker_packed_def pack_box_checker)


lemma range_small: "js_range (Num 2) = [0, 1]" "[0..<nat 1] = [0]"
  by (simp_all add: upt_conv_Cons numeral_2_eq_2)

lemma boxify_checker: "boxify checker_image (Num 2) = Some checker_boxed"
proof -
  have "make_box checker_image (Num 2) (Num 0) (Num 0) = checker_box"
    unfolding make_box_def range_small
    by (simp add: make_pixel_def checker_image_def checker_box_def black_def white_def)
  moreover have "int (i_width checker_image) div 2 = 1" "int (i_height checker_image) div 2 = 1"
    by (simp_all add: checker_image_def)
  ultimately show ?thesis
    using boxify_pos [of 2 checker_image]
    by (simp add: checker_boxed_def range_small)
qed

text \<open>
  The checkerboard with exact arithmetic: the luminances are 0, 1, 1, 0, their mean is
  \<open>1 / 2\<close>, the indices are 0, 1, 1, 0 and the counts are 2 and 2.
\<close>

theorem pack_partition_witness:
  "length (i_data checker_image) = 4 * i_width checker_image * i_height checker_image
   \<and> (0::int) < 2
   \<and> boxify checker_image (Num 2) = Some checker_boxed
   \<and> length (p_data (pack (\<lambda>x. x) checker_boxed)) = 1
   \<and> (\<exists>ls. map (\<lambda>q. getLuminance (\<lambda>x. x) (px_color q)) (bx_data (b_data checker_boxed ! 0)) = map D ls
        \<and> ls = [0, 1, 1, 0]
        \<and> averageLuminance (\<lambda>x. x) (b_data checker_boxed ! 0) = D (rounded_mean (\<lambda>x. x) ls)
        \<and> rounded_mean (\<lambda>x. x) ls = 1 / 2
        \<and> pp_index (pb_data (p_data (pack (\<lambda>x. x) checker_boxed) ! 0) ! 1) = Num 1
        \<and> pp_index (pb_data (p_data (pack (\<lambda>x. x) checker_boxed) ! 0) ! 3) = Num 0)
   \<and> t_n (light (box_totals (\<lambda>x. x) (b_data checker_boxed ! 0)))
      + t_n (dark (box_totals (\<lambda>x. x) (b_data checker_boxed ! 0))) = 4"
proof -
  have wf: "length (i_data checker_image) = 4 * i_width checker_image * i_height checker_image"
    by (simp add: checker_image_def)
  have bs: "(0::int) < 2" by simp
  have k: "0 < length (b_data checker_boxed)" "length (b_data checker_boxed) = 1"
    by (simp_all add: checker_boxed_def)
  have b: "b_data checker_boxed ! 0 = checker_box"
    by (simp add: checker_boxed_def)
  have lums: "map (\<lambda>q. getLuminance (\<lambda>x. x) (px_color q)) (bx_data checker_box) = map D [0, 1, 1, 0]"
    by (simp add: data_checker lum_black lum_white)
  from pack_partition [OF wf bs, of "\<lambda>x. x"] obtain b' where b': "boxify checker_image (Num 2) = Some b'"
    and l': "length (p_data (pack (\<lambda>x. x) b')) = length (b_data b')"
    and all: "\<forall>k < length (b_data b'). \<exists>ls.
          map (\<lambda>q. getLuminance (\<lambda>x. x) (px_color q)) (bx_data (b_data b' ! k)) = map D ls
          \<and> length ls = nat 2 * nat 2
          \<and> length (pb_data (p_data (pack (\<lambda>x. x) b') ! k)) = nat 2 * nat 2
          \<and> averageLuminance (\<lambda>x. x) (b_data b' ! k) = D (rounded_mean (\<lambda>x. x) ls)
          \<and> rounded_mean (\<lambda>x. x) ls = sum_list ls / real (length ls)
          \<and> (\<forall>i < length ls.
               (pp_index (pb_data (p_data (pack (\<lambda>x. x) b') ! k) ! i) = Num 1
                  \<longleftrightarrow> rounded_mean (\<lambda>x. x) ls \<le> ls ! i)
               \<and> (pp_index (pb_data (p_data (pack (\<lambda>x. x) b') ! k) ! i) = Num 0
                  \<longleftrightarrow> ls ! i < rounded_mean (\<lambda>x. x) ls))
          \<and> t_n (light (box_totals (\<lambda>x. x) (b_data b' ! k)))
               = length (filter (\<lambda>q. pp_index q = Num 1) (pb_data (p_data (pack (\<lambda>x. x) b') ! k)))
          \<and> t_n (dark (box_totals (\<lambda>x. x) (b_data b' ! k)))
               = length (filter (\<lambda>q. pp_index q = Num 0) (pb_data (p_data (pack (\<lambda>x. x) b') ! k)))
          \<and> t_n (light (box_totals (\<lambda>x. x) (b_data b' ! k))) + t_n (dark (box_totals (\<lambda>x. x) (b_data b' ! k)))
               = nat 2 * nat 2"
    by blast
  from b' have eq: "b' = checker_boxed"
    by (simp add: boxify_checker)
  from l' have l: "length (p_data (pack (\<lambda>x. x) checker_boxed)) = length (b_data checker_boxed)"
    unfolding eq .
  from all [unfolded eq, rule_format, OF k(1)] obtain ls where
    ls: "map (\<lambda>q. getLuminance (\<lambda>x. x) (px_color q)) (bx_data checker_box) = map D ls"
    and av: "averageLuminance (\<lambda>x. x) checker_box = D (rounded_mean (\<lambda>x. x) ls)"
    and mn: "rounded_mean (\<lambda>x. x) ls = sum_list ls / real (length ls)"
    and ix: "\<forall>i < length ls.
               (pp_index (pb_data (p_data (pack (\<lambda>x. x) checker_boxed) ! 0) ! i) = Num 1
                  \<longleftrightarrow> rounded_mean (\<lambda>x. x) ls \<le> ls ! i)
               \<and> (pp_index (pb_data (p_data (pack (\<lambda>x. x) checker_boxed) ! 0) ! i) = Num 0
                  \<longleftrightarrow> ls ! i < rounded_mean (\<lambda>x. x) ls)"
    and cs: "t_n (light (box_totals (\<lambda>x. x) checker_box)) + t_n (dark (box_totals (\<lambda>x. x) checker_box))
               = nat 2 * nat 2"
    unfolding b by blast
  have "inj D"
    by (simp add: inj_def)
  moreover from ls lums have "map D ls = map D [0, 1, 1, 0]"
    by (simp only:)
  ultimately have e: "ls = [0, 1, 1, 0]"
    by (simp only: inj_map_eq_map)
  have m: "rounded_mean (\<lambda>x. x) ls = 1 / 2"
    using mn unfolding e by simp
  note m' = m [unfolded e]
  from ix [unfolded e, rule_format, of 1] ix [unfolded e, rule_format, of 3]
  have "pp_index (pb_data (p_data (pack (\<lambda>x. x) checker_boxed) ! 0) ! 1) = Num 1"
    "pp_index (pb_data (p_data (pack (\<lambda>x. x) checker_boxed) ! 0) ! 3) = Num 0"
    by (simp_all add: m')
  with wf bs boxify_checker l k(2) ls e av m cs show ?thesis
    unfolding b by simp
qed

section \<open>The partition in double precision\<close>

text \<open>
  The value of \<open>binary64\<close> at a number whose binade is known: the nearest multiple of
  the spacing, and the even one at a tie.
\<close>

lemma round_half_even_near:
  assumes "\<bar>y - real_of_int m\<bar> < 1 / 2"
  shows "round_half_even y = m"
proof (cases "real_of_int m \<le> y")
  case True
  with assms have "\<lfloor>y\<rfloor> = m"
    by (simp add: floor_eq_iff)
  with assms True show ?thesis
    by (simp add: round_half_even_def)
next
  case False
  with assms have f: "\<lfloor>y\<rfloor> = m - 1"
    by (simp add: floor_eq_iff)
  from assms False have "1 / 2 < y - real_of_int (m - 1)"
    by simp
  then show ?thesis
    unfolding round_half_even_def f by simp
qed

lemma round_half_even_tie:
  assumes "\<bar>y - real_of_int m\<bar> = 1 / 2" "even m"
  shows "round_half_even y = m"
proof (cases "real_of_int m \<le> y")
  case True
  with assms have y: "y = real_of_int m + 1 / 2" by simp
  then have "\<lfloor>y\<rfloor> = m"
    by (simp add: floor_eq_iff)
  with y assms(2) show ?thesis
    by (simp add: round_half_even_def)
next
  case False
  with assms have y: "y = real_of_int (m - 1) + 1 / 2" by simp
  then have f: "\<lfloor>y\<rfloor> = m - 1"
    by (simp add: floor_eq_iff)
  from assms(2) have "odd (m - 1)" by simp
  with y show ?thesis
    unfolding round_half_even_def f by simp
qed

lemma binade:
  assumes "2 ^ 52 \<le> x * 2 ^ k" "x * 2 ^ k < 2 ^ 53"
  shows "\<lfloor>log 2 \<bar>x\<bar>\<rfloor> - 52 = - int k" and "0 < x"
proof -
  have p: "(0::real) < 2 ^ k" by simp
  from assms(1) have "0 < x * 2 ^ k"
    by (rule less_le_trans [rotated]) simp
  with p show x: "0 < x"
    by (simp add: zero_less_mult_iff)
  have l: "log 2 (x * 2 ^ k) = log 2 x + real k"
    using x by (simp add: log_mult log_nat_power)
  have "(2::real) powr 52 \<le> x * 2 ^ k" "x * 2 ^ k < (2::real) powr 53"
    using assms by simp_all
  then have "52 \<le> log 2 (x * 2 ^ k)" "log 2 (x * 2 ^ k) < 53"
    using x by (simp_all add: le_log_iff log_less_iff)
  then have "real_of_int (52 - int k) \<le> log 2 x" "log 2 x < real_of_int (52 - int k) + 1"
    unfolding l by simp_all
  then have "\<lfloor>log 2 x\<rfloor> = 52 - int k"
    by (simp only: floor_eq_iff)
  with x show "\<lfloor>log 2 \<bar>x\<bar>\<rfloor> - 52 = - int k"
    by simp
qed

lemma binary64_scaled:
  assumes "2 ^ 52 \<le> x * 2 ^ k" "x * 2 ^ k < 2 ^ 53"
  shows "binary64 x = real_of_int (round_half_even (x * 2 ^ k)) / 2 ^ k"
proof -
  note b = binade [OF assms]
  have "2 powr real_of_int (- int k) = 1 / 2 ^ k"
    by (simp add: powr_minus powr_realpow divide_inverse)
  with b show ?thesis
    by (simp add: binary64_def)
qed

lemma binary64_eq:
  assumes "2 ^ 52 \<le> x * 2 ^ k" "x * 2 ^ k < 2 ^ 53" "\<bar>x * 2 ^ k - real_of_int m\<bar> < 1 / 2"
  shows "binary64 x = real_of_int m / 2 ^ k"
  unfolding binary64_scaled [OF assms(1,2)] round_half_even_near [OF assms(3)] ..

lemma binary64_tie:
  assumes "2 ^ 52 \<le> x * 2 ^ k" "x * 2 ^ k < 2 ^ 53" "\<bar>x * 2 ^ k - real_of_int m\<bar> = 1 / 2" "even m"
  shows "binary64 x = real_of_int m / 2 ^ k"
  unfolding binary64_scaled [OF assms(1,2)] round_half_even_tie [OF assms(3,4)] ..

lemma binary64_sqrt:
  assumes "(2 ^ 52)\<^sup>2 \<le> s * 4 ^ k" "s * 4 ^ k < (2 ^ 53)\<^sup>2"
    and "(real_of_int m - 1 / 2)\<^sup>2 < s * 4 ^ k" "s * 4 ^ k < (real_of_int m + 1 / 2)\<^sup>2"
    and "1 \<le> m"
  shows "binary64 (sqrt s) = real_of_int m / 2 ^ k"
proof -
  have "sqrt (4 ^ k) = (2::real) ^ k"
  proof -
    have "(4::real) ^ k = (2 ^ k)\<^sup>2"
      by (simp add: power_mult [symmetric] mult.commute power2_eq_square power_mult_distrib [symmetric])
    then show ?thesis by simp
  qed
  then have e: "sqrt s * 2 ^ k = sqrt (s * 4 ^ k)"
    by (simp add: real_sqrt_mult)
  have nn: "0 \<le> s * 4 ^ k"
    using assms(1) by (rule order_trans [rotated]) simp
  have 1: "2 ^ 52 \<le> sqrt s * 2 ^ k"
    unfolding e using assms(1) by (rule real_le_rsqrt)
  have 2: "sqrt s * 2 ^ k < 2 ^ 53"
    unfolding e using assms(2) by (intro real_less_lsqrt) simp_all
  have "real_of_int m - 1 / 2 < sqrt s * 2 ^ k"
    unfolding e using assms(3) by (rule real_less_rsqrt)
  moreover have "sqrt s * 2 ^ k < real_of_int m + 1 / 2"
    unfolding e using assms(4,5) by (intro real_less_lsqrt) simp_all
  ultimately have "\<bar>sqrt s * 2 ^ k - real_of_int m\<bar> < 1 / 2"
    by linarith
  with 1 2 show ?thesis
    by (rule binary64_eq)
qed

text \<open>
  The roundings of \<open>getLuminance\<close> for the colour (11, 11, 11): the three literals,
  the six products, the two sums, the square root and the quotient by 255; then the nine
  additions that sum the luminances of a box of \<open>3 \<times> 3\<close> such pixels, and the
  division by 9.
\<close>

lemma grey_lit_r: "binary64 (0.241) = 8682940081570316 / 2 ^ 55"
  using binary64_eq [of "0.241" 55 8682940081570316] by simp

lemma grey_mul1_r: "binary64 (8682940081570316 / 2 ^ 55 * 11) = 5969521306079592 / 2 ^ 51"
  using binary64_eq [of "8682940081570316 / 2 ^ 55 * 11" 51 5969521306079592] by simp

lemma grey_mul2_r: "binary64 (5969521306079592 / 2 ^ 51 * 11) = 8208091795859439 / 2 ^ 48"
  using binary64_eq [of "5969521306079592 / 2 ^ 51 * 11" 48 8208091795859439] by simp

lemma grey_lit_g: "binary64 (0.691) = 6223974685026025 / 2 ^ 53"
  using binary64_eq [of "0.691" 53 6223974685026025] by simp

lemma grey_mul1_g: "binary64 (6223974685026025 / 2 ^ 53 * 11) = 8557965191910784 / 2 ^ 50"
  using binary64_eq [of "6223974685026025 / 2 ^ 53 * 11" 50 8557965191910784] by simp

lemma grey_mul2_g: "binary64 (8557965191910784 / 2 ^ 50 * 11) = 5883601069438664 / 2 ^ 46"
  using binary64_eq [of "8557965191910784 / 2 ^ 50 * 11" 46 5883601069438664] by simp

lemma grey_lit_b: "binary64 (0.068) = 4899916394579100 / 2 ^ 56"
  using binary64_eq [of "0.068" 56 4899916394579100] by simp

lemma grey_mul1_b: "binary64 (4899916394579100 / 2 ^ 56 * 11) = 6737385042546262 / 2 ^ 53"
  using binary64_tie [of "4899916394579100 / 2 ^ 56 * 11" 53 6737385042546262] by simp

lemma grey_mul2_b: "binary64 (6737385042546262 / 2 ^ 53 * 11) = 4631952216750555 / 2 ^ 49"
  using binary64_eq [of "6737385042546262 / 2 ^ 53 * 11" 49 4631952216750555] by simp

lemma grey_add1: "binary64 (8208091795859439 / 2 ^ 48 + 5883601069438664 / 2 ^ 46) = 7935624018403524 / 2 ^ 46"
  using binary64_eq [of "8208091795859439 / 2 ^ 48 + 5883601069438664 / 2 ^ 46" 46 7935624018403524] by simp

lemma grey_add2: "binary64 (7935624018403524 / 2 ^ 46 + 4631952216750555 / 2 ^ 49) = 8514618045497343 / 2 ^ 46"
  using binary64_eq [of "7935624018403524 / 2 ^ 46 + 4631952216750555 / 2 ^ 49" 46 8514618045497343] by simp

lemma grey_root: "binary64 (sqrt (8514618045497343 / 2 ^ 46)) = 6192449487634432 / 2 ^ 49"
  using binary64_sqrt [of "8514618045497343 / 2 ^ 46" 49 6192449487634432] by (simp add: power2_eq_square)

lemma grey_quot: "binary64 (6192449487634432 / 2 ^ 49 / 255) = 6216733603272214 / 2 ^ 57"
  using binary64_eq [of "6192449487634432 / 2 ^ 49 / 255" 57 6216733603272214] by simp

lemma grey_sum1: "binary64 (0 + 6216733603272214 / 2 ^ 57) = 6216733603272214 / 2 ^ 57"
  using binary64_eq [of "0 + 6216733603272214 / 2 ^ 57" 57 6216733603272214] by simp

lemma grey_sum2: "binary64 (6216733603272214 / 2 ^ 57 + 6216733603272214 / 2 ^ 57) = 6216733603272214 / 2 ^ 56"
  using binary64_eq [of "6216733603272214 / 2 ^ 57 + 6216733603272214 / 2 ^ 57" 56 6216733603272214] by simp

lemma grey_sum3: "binary64 (6216733603272214 / 2 ^ 56 + 6216733603272214 / 2 ^ 57) = 4662550202454160 / 2 ^ 55"
  using binary64_tie [of "6216733603272214 / 2 ^ 56 + 6216733603272214 / 2 ^ 57" 55 4662550202454160] by simp

lemma grey_sum4: "binary64 (4662550202454160 / 2 ^ 55 + 6216733603272214 / 2 ^ 57) = 6216733603272214 / 2 ^ 55"
  using binary64_tie [of "4662550202454160 / 2 ^ 55 + 6216733603272214 / 2 ^ 57" 55 6216733603272214] by simp

lemma grey_sum5: "binary64 (6216733603272214 / 2 ^ 55 + 6216733603272214 / 2 ^ 57) = 7770917004090268 / 2 ^ 55"
  using binary64_tie [of "6216733603272214 / 2 ^ 55 + 6216733603272214 / 2 ^ 57" 55 7770917004090268] by simp

lemma grey_sum6: "binary64 (7770917004090268 / 2 ^ 55 + 6216733603272214 / 2 ^ 57) = 4662550202454161 / 2 ^ 54"
  using binary64_eq [of "7770917004090268 / 2 ^ 55 + 6216733603272214 / 2 ^ 57" 54 4662550202454161] by simp

lemma grey_sum7: "binary64 (4662550202454161 / 2 ^ 54 + 6216733603272214 / 2 ^ 57) = 5439641902863188 / 2 ^ 54"
  using binary64_eq [of "4662550202454161 / 2 ^ 54 + 6216733603272214 / 2 ^ 57" 54 5439641902863188] by simp

lemma grey_sum8: "binary64 (5439641902863188 / 2 ^ 54 + 6216733603272214 / 2 ^ 57) = 6216733603272215 / 2 ^ 54"
  using binary64_eq [of "5439641902863188 / 2 ^ 54 + 6216733603272214 / 2 ^ 57" 54 6216733603272215] by simp

lemma grey_sum9: "binary64 (6216733603272215 / 2 ^ 54 + 6216733603272214 / 2 ^ 57) = 6993825303681242 / 2 ^ 54"
  using binary64_eq [of "6216733603272215 / 2 ^ 54 + 6216733603272214 / 2 ^ 57" 54 6993825303681242] by simp

lemma grey_mean: "binary64 (6993825303681242 / 2 ^ 54 / 9) = 6216733603272215 / 2 ^ 57"
  using binary64_eq [of "6993825303681242 / 2 ^ 54 / 9" 57 6216733603272215] by simp

(* L = 6216733603272214 / 2 ^ 57 ; A = 6216733603272215 / 2 ^ 57 *)

lemma luminance_grey64: "luminance binary64 11 11 11 = 6216733603272214 / 2 ^ 57"
  by (simp only: luminance_def of_int_numeral grey_lit_r grey_mul1_r grey_mul2_r grey_lit_g grey_mul1_g grey_mul2_g
      grey_lit_b grey_mul1_b grey_mul2_b grey_add1 grey_add2 grey_root grey_quot)

lemma lum_grey64: "getLuminance binary64 grey = D (6216733603272214 / 2 ^ 57)"
  by (simp only: getLuminance_def grey_def colour.select_convs prod.case jsval.case
      luminance_grey64)

lemma data_grey:
  "bx_data grey_box = [\<lparr>px_x = Num 0, px_y = Num 0, px_color = grey\<rparr>,
                \<lparr>px_x = Num 1, px_y = Num 0, px_color = grey\<rparr>,
                \<lparr>px_x = Num 2, px_y = Num 0, px_color = grey\<rparr>,
                \<lparr>px_x = Num 0, px_y = Num 1, px_color = grey\<rparr>,
                \<lparr>px_x = Num 1, px_y = Num 1, px_color = grey\<rparr>,
                \<lparr>px_x = Num 2, px_y = Num 1, px_color = grey\<rparr>,
                \<lparr>px_x = Num 0, px_y = Num 2, px_color = grey\<rparr>,
                \<lparr>px_x = Num 1, px_y = Num 2, px_color = grey\<rparr>,
                \<lparr>px_x = Num 2, px_y = Num 2, px_color = grey\<rparr>]"
  by (simp add: grey_box_def)

lemma replicate_9: "replicate 9 x = [x, x, x, x, x, x, x, x, x]"
  by (simp add: eval_nat_numeral)

lemma luminances_grey64:
  "map (\<lambda>q. getLuminance binary64 (px_color q)) (bx_data grey_box)
     = map D (replicate 9 (6216733603272214 / 2 ^ 57))"
  unfolding data_grey
  by (simp only: list.map pixel.select_convs lum_grey64 replicate_9)

lemma total_grey64:
  "foldl (\<lambda>s l. binary64 (s + l)) 0 (replicate 9 (6216733603272214 / 2 ^ 57))
     = 6993825303681242 / 2 ^ 54"
  by (simp only: replicate_9 foldl_Cons foldl_Nil grey_sum1 grey_sum2 grey_sum3 grey_sum4 grey_sum5 grey_sum6 grey_sum7 grey_sum8 grey_sum9)

lemma mean_grey64:
  "rounded_mean binary64 (replicate 9 (6216733603272214 / 2 ^ 57)) = 6216733603272215 / 2 ^ 57"
proof -
  have "real (length (replicate 9 (6216733603272214 / 2 ^ 57 :: real))) = 9"
    by simp
  then show ?thesis
    unfolding rounded_mean_def total_grey64 by (simp only: grey_mean)
qed

lemma average_grey64: "averageLuminance binary64 grey_box = D (6216733603272215 / 2 ^ 57)"
proof -
  have "bx_data grey_box \<noteq> []"
    by (simp add: data_grey)
  with luminances_grey64 have "averageLuminance binary64 grey_box
      = D (rounded_mean binary64 (replicate 9 (6216733603272214 / 2 ^ 57)))"
    by (rule averageLuminance_mean)
  then show ?thesis
    by (simp only: mean_grey64)
qed

lemma dark_grey64: "\<not> is_light binary64 grey_box \<lparr>px_x = a, px_y = b, px_color = grey\<rparr>"
  by (simp add: is_light_def average_grey64 lum_grey64)

lemma range3: "js_range (Num 3) = [0, 1, 2]"
  by (simp add: upt_conv_Cons numeral_3_eq_3)

lemma boxify_grey: "boxify grey_image (Num 3) = Some grey_boxed"
proof -
  have "make_box grey_image (Num 3) (Num 0) (Num 0) = grey_box"
    unfolding make_box_def range3
    by (simp add: make_pixel_def grey_image_def grey_box_def grey_def)
  moreover have "int (i_width grey_image) div 3 = 1" "int (i_height grey_image) div 3 = 1"
    by (simp_all add: grey_image_def)
  ultimately show ?thesis
    using boxify_pos [of 3 grey_image]
    by (simp add: grey_boxed_def range_small)
qed

text \<open>
  C2 as stated fails in double precision. In the image of \<open>3 \<times> 3\<close> pixels of the
  colour (11, 11, 11) every pixel has the same luminance, which is also the arithmetic
  mean of the nine luminances; the mean that \<open>pack\<close> computes is one unit in the last
  place above it, every luminance is below it, and every index is 0.
\<close>

theorem pack_partition_counterexample:
  "boxify grey_image (Num 3) = Some grey_boxed
   \<and> map (\<lambda>q. getLuminance binary64 (px_color q)) (bx_data (b_data grey_boxed ! 0))
        = map D (replicate 9 (6216733603272214 / 2 ^ 57))
   \<and> sum_list (replicate 9 (6216733603272214 / 2 ^ 57)) / 9 = (6216733603272214 / 2 ^ 57 :: real)
   \<and> averageLuminance binary64 (b_data grey_boxed ! 0) = D (6216733603272215 / 2 ^ 57)
   \<and> map pp_index (pb_data (p_data (pack binary64 grey_boxed) ! 0)) = replicate 9 (Num 0)"
proof -
  have b: "b_data grey_boxed ! 0 = grey_box"
    by (simp add: grey_boxed_def)
  have p: "p_data (pack binary64 grey_boxed) ! 0 = pack_box binary64 grey_box"
    by (simp add: pack_def grey_boxed_def)
  have s: "sum_list (replicate 9 (6216733603272214 / 2 ^ 57)) / 9 = (6216733603272214 / 2 ^ 57 :: real)"
    by (simp add: sum_list_replicate)
  have i: "map pp_index (pb_data (pack_box binary64 grey_box)) = replicate 9 (Num 0)"
    by (simp add: pack_box_def data_grey dark_grey64 eval_nat_numeral)
  from boxify_grey luminances_grey64 s average_grey64 i show ?thesis
    unfolding b p by (intro conjI)
qed

section \<open>A box of one colour\<close>

lemma mean_colour_empty: "t_n t = 0 \<Longrightarrow> mean_colour fl t = \<lparr>col_r = NaN, col_g = NaN, col_b = NaN\<rparr>"
proof -
  have "floor_div fl v 0 = NaN" for v
    by (cases v) simp_all
  then show "t_n t = 0 \<Longrightarrow> mean_colour fl t = \<lparr>col_r = NaN, col_g = NaN, col_b = NaN\<rparr>"
    by (simp add: mean_colour_def)
qed

text \<open>A partition without pixels gets the colour \<open>(NaN, NaN, NaN)\<close>.\<close>

lemma empty_dark:
  assumes "list_all (is_light fl box) (bx_data box)"
  shows "pb_dark (pack_box fl box) = \<lparr>col_r = NaN, col_g = NaN, col_b = NaN\<rparr>"
proof -
  from assms have "filter (\<lambda>q. \<not> is_light fl box q) (bx_data box) = []"
    by (simp add: list_all_iff filter_empty_conv)
  then have "t_n (dark (box_totals fl box)) = 0"
    by (simp add: box_totals_counts)
  then show ?thesis
    by (simp add: pack_box_def mean_colour_empty)
qed

lemma empty_light:
  assumes "list_all (\<lambda>q. \<not> is_light fl box q) (bx_data box)"
  shows "pb_light (pack_box fl box) = \<lparr>col_r = NaN, col_g = NaN, col_b = NaN\<rparr>"
proof -
  from assms have "filter (is_light fl box) (bx_data box) = []"
    by (simp add: list_all_iff filter_empty_conv)
  then have "t_n (light (box_totals fl box)) = 0"
    by (simp add: box_totals_counts)
  then show ?thesis
    by (simp add: pack_box_def mean_colour_empty)
qed

lemma data_black:
  "bx_data black_box = [\<lparr>px_x = Num 0, px_y = Num 0, px_color = black\<rparr>,
                \<lparr>px_x = Num 1, px_y = Num 0, px_color = black\<rparr>,
                \<lparr>px_x = Num 0, px_y = Num 1, px_color = black\<rparr>,
                \<lparr>px_x = Num 1, px_y = Num 1, px_color = black\<rparr>]"
  by (simp add: black_box_def)

lemma lum_black_any: "fl 0 = 0 \<Longrightarrow> getLuminance fl black = D 0"
  by (simp add: getLuminance_def components luminance_def)

lemma average_black: "fl 0 = 0 \<Longrightarrow> averageLuminance fl black_box = D 0"
  by (simp add: averageLuminance_def totalLuminance_def data_black lum_black_any)

lemma light_black: "fl 0 = 0 \<Longrightarrow> is_light fl black_box \<lparr>px_x = a, px_y = b, px_color = black\<rparr>"
  by (simp add: is_light_def average_black lum_black_any)

text \<open>
  C4, at the failing input. In a box of four black pixels every luminance equals the mean,
  all four pixels are light, and the dark colour that \<open>pack\<close> assigns is
  \<open>(NaN, NaN, NaN)\<close>: no fallback colour is defined. This holds for every rounding that
  keeps 0.
\<close>

theorem empty_partition_is_NaN:
  assumes "fl 0 = 0"
  shows "pack_box fl black_box
     = \<lparr>pb_x = Num 0, pb_y = Num 0, pb_light = black,
        pb_dark = \<lparr>col_r = NaN, col_g = NaN, col_b = NaN\<rparr>,
        pb_data = [\<lparr>pp_x = Num 0, pp_y = Num 0, pp_index = Num 1\<rparr>,
                   \<lparr>pp_x = Num 1, pp_y = Num 0, pp_index = Num 1\<rparr>,
                   \<lparr>pp_x = Num 0, pp_y = Num 1, pp_index = Num 1\<rparr>,
                   \<lparr>pp_x = Num 1, pp_y = Num 1, pp_index = Num 1\<rparr>]\<rparr>"
proof -
  note lb = light_black [of fl, OF assms]
  have t: "box_totals fl black_box
     = \<lparr>light = \<lparr>t_r = Num 0, t_g = Num 0, t_b = Num 0, t_n = 4\<rparr>,
        dark = \<lparr>t_r = Num 0, t_g = Num 0, t_b = Num 0, t_n = 0\<rparr>\<rparr>"
    by (simp add: box_totals_def data_black lb add_pixel_def components)
  have m: "mean_colour fl \<lparr>t_r = Num 0, t_g = Num 0, t_b = Num 0, t_n = 4\<rparr> = black"
    using assms by (simp add: mean_colour_def black_def)
  show ?thesis
    unfolding pack_box_def t
    by (simp add: m mean_colour_empty data_black lb) (simp add: black_box_def)
qed

text \<open>The same with exact arithmetic.\<close>

theorem empty_partition_is_NaN_witness:
  "(\<lambda>x::real. x) 0 = 0
   \<and> pb_dark (pack_box (\<lambda>x. x) black_box) = \<lparr>col_r = NaN, col_g = NaN, col_b = NaN\<rparr>
   \<and> map pp_index (pb_data (pack_box (\<lambda>x. x) black_box)) = [Num 1, Num 1, Num 1, Num 1]"
  using empty_partition_is_NaN [of "\<lambda>x. x"] by simp

lemma boxify_black:
  "boxify black_image (Num 2)
     = Some \<lparr>b_size = \<lparr>width = Num 1, height = Num 1\<rparr>, b_boxSize = Num 2, b_data = [black_box]\<rparr>"
proof -
  have "make_box black_image (Num 2) (Num 0) (Num 0) = black_box"
    unfolding make_box_def range_small
    by (simp add: make_pixel_def black_image_def black_box_def black_def)
  moreover have "int (i_width black_image) div 2 = 1" "int (i_height black_image) div 2 = 1"
    by (simp_all add: black_image_def)
  ultimately show ?thesis
    using boxify_pos [of 2 black_image]
    by (simp add: range_small)
qed

text \<open>Written to the file, the missing colour becomes three zero bytes.\<close>

lemma serialised_NaN: "map toUint8 [NaN, NaN, NaN] = [0, 0, 0]"
  by simp

section \<open>Properties of the luminance\<close>

text \<open>One weighted square \<open>fl (fl (c * v) * v)\<close> is non-negative and monotone in \<open>v \<ge> 0\<close>.\<close>

lemma term_mono:
  assumes mono: "\<And>x y. x \<le> y \<Longrightarrow> fl x \<le> fl y" and zero: "fl 0 = (0::real)"
    and c: "0 \<le> c" and v: "0 \<le> v" "v \<le> v'"
  shows "0 \<le> fl (fl (c * v) * v)" and "fl (fl (c * v) * v) \<le> fl (fl (c * v') * v')"
proof -
  have nn: "0 \<le> fl x" if "0 \<le> x" for x
    using mono [OF that] zero by simp
  from c v have "0 \<le> c * v" "c * v \<le> c * v'"
    by (simp_all add: mult_left_mono)
  then have a: "0 \<le> fl (c * v)" "fl (c * v) \<le> fl (c * v')"
    by (simp_all add: nn mono)
  with v have "0 \<le> fl (c * v) * v" "fl (c * v) * v \<le> fl (c * v') * v'"
    by (simp_all add: mult_mono)
  then show "0 \<le> fl (fl (c * v) * v)" "fl (fl (c * v) * v) \<le> fl (fl (c * v') * v')"
    by (simp_all add: nn mono)
qed

lemma luminance_mono:
  assumes mono: "\<And>x y. x \<le> y \<Longrightarrow> fl x \<le> fl y" and zero: "fl 0 = (0::real)"
    and r: "0 \<le> r" "r \<le> r'" and g: "0 \<le> g" "g \<le> g'" and b: "0 \<le> b" "b \<le> b'"
  shows "luminance fl r g b \<le> luminance fl r' g' b'"
proof -
  have nn: "0 \<le> fl x" if "0 \<le> x" for x
    using mono [OF that] zero by simp
  have c: "0 \<le> fl 0.241" "0 \<le> fl 0.691" "0 \<le> fl 0.068"
    by (simp_all add: nn)
  have R: "fl (fl (fl 0.241 * real_of_int r) * real_of_int r)
      \<le> fl (fl (fl 0.241 * real_of_int r') * real_of_int r')"
    using mono zero c(1) r by (intro term_mono(2)) simp_all
  have G: "fl (fl (fl 0.691 * real_of_int g) * real_of_int g)
      \<le> fl (fl (fl 0.691 * real_of_int g') * real_of_int g')"
    using mono zero c(2) g by (intro term_mono(2)) simp_all
  have B: "fl (fl (fl 0.068 * real_of_int b) * real_of_int b)
      \<le> fl (fl (fl 0.068 * real_of_int b') * real_of_int b')"
    using mono zero c(3) b by (intro term_mono(2)) simp_all
  have S1: "fl (fl (fl (fl 0.241 * real_of_int r) * real_of_int r)
        + fl (fl (fl 0.691 * real_of_int g) * real_of_int g))
      \<le> fl (fl (fl (fl 0.241 * real_of_int r') * real_of_int r')
        + fl (fl (fl 0.691 * real_of_int g') * real_of_int g'))"
    by (rule mono) (rule add_mono [OF R G])
  have S2: "fl (fl (fl (fl (fl 0.241 * real_of_int r) * real_of_int r)
        + fl (fl (fl 0.691 * real_of_int g) * real_of_int g))
        + fl (fl (fl 0.068 * real_of_int b) * real_of_int b))
      \<le> fl (fl (fl (fl (fl 0.241 * real_of_int r') * real_of_int r')
        + fl (fl (fl 0.691 * real_of_int g') * real_of_int g'))
        + fl (fl (fl 0.068 * real_of_int b') * real_of_int b'))"
    by (rule mono) (rule add_mono [OF S1 B])
  show ?thesis
    unfolding luminance_def
    by (rule mono, rule divide_right_mono, rule mono, rule real_sqrt_le_mono, rule S2) simp
qed

lemma luminance_zero: "fl 0 = 0 \<Longrightarrow> luminance fl 0 0 0 = 0"
  by (simp add: luminance_def)

text \<open>
  The error of the luminance of white: every operation on the way rounds a value between
  \<open>1 / 100\<close> and \<open>100000\<close>, with a relative error of at most \<open>u\<close>.
\<close>

lemma pow_bounds:
  fixes u :: real
  assumes u: "0 \<le> u" "u \<le> 1 / 100" and k: "k \<le> (5::nat)"
  shows "95 / 100 \<le> (1 - u) ^ k" "(1 - u) ^ k \<le> 1" "1 \<le> (1 + u) ^ k" "(1 + u) ^ k \<le> 106 / 100"
proof -
  have "(99 / 100 :: real) ^ 5 \<le> (99 / 100) ^ k"
    using k by (intro power_decreasing) simp_all
  moreover have "(99 / 100 :: real) ^ k \<le> (1 - u) ^ k"
    using u by (intro power_mono) simp_all
  moreover have "(95 / 100 :: real) \<le> (99 / 100) ^ 5"
    by (simp add: eval_nat_numeral)
  ultimately show "95 / 100 \<le> (1 - u) ^ k" by linarith
  show "(1 - u) ^ k \<le> 1"
    using u by (intro power_le_one) simp_all
  show "1 \<le> (1 + u) ^ k"
    using u by (intro one_le_power) simp
  have "(1 + u) ^ k \<le> (101 / 100) ^ k"
    using u by (intro power_mono) simp_all
  moreover have "(101 / 100 :: real) ^ k \<le> (101 / 100) ^ 5"
    using k by (intro power_increasing) simp_all
  moreover have "(101 / 100 :: real) ^ 5 \<le> 106 / 100"
    by (simp add: eval_nat_numeral)
  ultimately show "(1 + u) ^ k \<le> 106 / 100" by linarith
qed


lemma rounded_fl:
  fixes u :: real
  assumes err: "\<And>x. 1 / 100 \<le> x \<Longrightarrow> x \<le> 100000 \<Longrightarrow> \<bar>fl x - x\<bar> \<le> u * x"
    and u: "0 \<le> u" "u \<le> 1 / 100"
    and K: "1 / 50 \<le> K" "K \<le> 90000" and k: "k \<le> 5"
    and x: "rounded u K k x"
  shows "rounded u K (Suc k) (fl x)"
proof -
  note pb = pow_bounds [OF u k]
  from x have lo: "K * (1 - u) ^ k \<le> x" and hi: "x \<le> K * (1 + u) ^ k"
    by (simp_all add: rounded_def)
  have "K * (95 / 100) \<le> K * (1 - u) ^ k"
    using K pb(1) by (intro mult_left_mono) simp_all
  moreover have "1 / 100 \<le> K * (95 / 100)"
    using K by simp
  ultimately have x1: "1 / 100 \<le> x"
    using lo by linarith
  have "K * (1 + u) ^ k \<le> K * (106 / 100)"
    using K pb(4) by (intro mult_left_mono) simp_all
  moreover have "K * (106 / 100) \<le> 100000"
    using K by simp
  ultimately have x2: "x \<le> 100000"
    using hi by linarith
  from err [OF x1 x2] have e: "x - u * x \<le> fl x" "fl x \<le> x + u * x"
    by (simp_all add: abs_le_iff algebra_simps)
  have "K * (1 - u) ^ Suc k = (1 - u) * (K * (1 - u) ^ k)"
    by simp
  also have "\<dots> \<le> (1 - u) * x"
    using u lo by (intro mult_left_mono) simp_all
  also have "\<dots> \<le> fl x"
    using e(1) by (simp add: algebra_simps)
  finally have L: "K * (1 - u) ^ Suc k \<le> fl x" .
  have "fl x \<le> (1 + u) * x"
    using e(2) by (simp add: algebra_simps)
  also have "\<dots> \<le> (1 + u) * (K * (1 + u) ^ k)"
    using u hi by (intro mult_left_mono) simp_all
  also have "\<dots> = K * (1 + u) ^ Suc k"
    by simp
  finally have "fl x \<le> K * (1 + u) ^ Suc k" .
  with L show ?thesis by (simp add: rounded_def)
qed

lemma rounded_const: "rounded u K 0 K"
  by (simp add: rounded_def)

lemma rounded_scale:
  assumes "rounded u K k x" "0 \<le> c"
  shows "rounded u (K * c) k (x * c)"
proof -
  from assms have "K * (1 - u) ^ k * c \<le> x * c" "x * c \<le> K * (1 + u) ^ k * c"
    by (simp_all add: rounded_def mult_right_mono)
  then show ?thesis
    by (simp add: rounded_def mult.assoc mult.commute [of c])
qed

lemma rounded_add:
  assumes "rounded u K k x" "rounded u L k y"
  shows "rounded u (K + L) k (x + y)"
  using assms by (simp add: rounded_def distrib_right add_mono)

lemma rounded_Suc:
  fixes u :: real
  assumes "rounded u K k x" "0 \<le> K" "0 \<le> u" "u \<le> 1"
  shows "rounded u K (Suc k) x"
proof -
  have "(1 - u) ^ Suc k \<le> (1 - u) ^ k"
    using assms(3,4) by (intro power_decreasing) simp_all
  then have "K * (1 - u) ^ Suc k \<le> K * (1 - u) ^ k"
    using assms(2) by (rule mult_left_mono)
  moreover have "(1 + u) ^ k \<le> (1 + u) ^ Suc k"
    using assms(3) by (intro power_increasing) simp_all
  then have "K * (1 + u) ^ k \<le> K * (1 + u) ^ Suc k"
    using assms(2) by (rule mult_left_mono)
  ultimately show ?thesis
    using assms(1) unfolding rounded_def by linarith
qed

lemma rounded_sqrt:
  fixes u :: real
  assumes "rounded u (K * K) (2 * k) x" "0 \<le> K" "0 \<le> u" "u \<le> 1"
  shows "rounded u K k (sqrt x)"
proof -
  have s: "sqrt (K * K * c ^ (2 * k)) = K * c ^ k" if "0 \<le> c" for c :: real
  proof -
    have "K * K * c ^ (2 * k) = (K * c ^ k)\<^sup>2"
      by (simp add: power2_eq_square power_mult mult.assoc mult.left_commute power_mult_distrib)
    moreover have "0 \<le> K * c ^ k"
      using assms(2) that by simp
    ultimately show ?thesis by simp
  qed
  from assms(1) have "sqrt (K * K * (1 - u) ^ (2 * k)) \<le> sqrt x"
    "sqrt x \<le> sqrt (K * K * (1 + u) ^ (2 * k))"
    by (simp_all add: rounded_def)
  then show ?thesis
    using assms(3,4) by (simp add: s rounded_def)
qed


lemma rounded_term:
  fixes u :: real
  assumes err: "\<And>x. 1 / 100 \<le> x \<Longrightarrow> x \<le> 100000 \<Longrightarrow> \<bar>fl x - x\<bar> \<le> u * x"
    and u: "0 \<le> u" "u \<le> 1 / 100"
    and c: "1 / 50 \<le> c" "c \<le> 1"
  shows "rounded u (c * 255 * 255) 3 (fl (fl (fl c * 255) * 255))"
proof -
  have 1: "rounded u c (Suc 0) (fl c)"
    using err u _ _ _ rounded_const by (rule rounded_fl) (use c in simp_all)
  have 2: "rounded u (c * 255) (Suc 0) (fl c * 255)"
    using 1 by (rule rounded_scale) simp
  have 3: "rounded u (c * 255) (Suc (Suc 0)) (fl (fl c * 255))"
    using err u _ _ _ 2 by (rule rounded_fl) (use c in simp_all)
  have 4: "rounded u (c * 255 * 255) (Suc (Suc 0)) (fl (fl c * 255) * 255)"
    using 3 by (rule rounded_scale) simp
  have "rounded u (c * 255 * 255) (Suc (Suc (Suc 0))) (fl (fl (fl c * 255) * 255))"
    using err u _ _ _ 4 by (rule rounded_fl) (use c in simp_all)
  then show ?thesis by (simp add: numeral_3_eq_3)
qed

lemma luminance_white_rounded:
  fixes u :: real
  assumes err: "\<And>x. 1 / 100 \<le> x \<Longrightarrow> x \<le> 100000 \<Longrightarrow> \<bar>fl x - x\<bar> \<le> u * x"
    and u: "0 \<le> u" "u \<le> 1 / 100"
  shows "rounded u 1 5 (luminance fl 255 255 255)"
proof -
  let ?A = "fl (fl (fl 0.241 * 255) * 255)"
  let ?B = "fl (fl (fl 0.691 * 255) * 255)"
  let ?C = "fl (fl (fl 0.068 * 255) * 255)"
  have u1: "u \<le> 1" using u by simp
  have A: "rounded u (0.241 * 255 * 255) 3 ?A" and B: "rounded u (0.691 * 255 * 255) 3 ?B"
    and C: "rounded u (0.068 * 255 * 255) 3 ?C"
    using err u by (rule rounded_term; simp)+
  have "rounded u (0.241 * 255 * 255 + 0.691 * 255 * 255) 3 (?A + ?B)"
    using A B by (rule rounded_add)
  from err u _ _ _ this have "rounded u (0.241 * 255 * 255 + 0.691 * 255 * 255) (Suc 3) (fl (?A + ?B))"
    by (rule rounded_fl) simp_all
  moreover have "rounded u (0.068 * 255 * 255) (Suc 3) ?C"
    using C _ u(1) u1 by (rule rounded_Suc) simp
  ultimately have "rounded u (0.241 * 255 * 255 + 0.691 * 255 * 255 + 0.068 * 255 * 255) (Suc 3)
      (fl (?A + ?B) + ?C)"
    by (rule rounded_add)
  then have "rounded u (255 * 255) 4 (fl (?A + ?B) + ?C)"
    by simp
  from err u _ _ _ this have "rounded u (255 * 255) (Suc 4) (fl (fl (?A + ?B) + ?C))"
    by (rule rounded_fl) simp_all
  then have "rounded u (255 * 255) (Suc (Suc 4)) (fl (fl (?A + ?B) + ?C))"
    using _ u(1) u1 by (rule rounded_Suc) simp
  then have "rounded u (255 * 255) (2 * 3) (fl (fl (?A + ?B) + ?C))"
    by simp
  then have "rounded u 255 3 (sqrt (fl (fl (?A + ?B) + ?C)))"
    using _ u(1) u1 by (rule rounded_sqrt) simp
  from err u _ _ _ this have "rounded u 255 (Suc 3) (fl (sqrt (fl (fl (?A + ?B) + ?C))))"
    by (rule rounded_fl) simp_all
  then have "rounded u (255 * (1 / 255)) (Suc 3) (fl (sqrt (fl (fl (?A + ?B) + ?C))) * (1 / 255))"
    by (rule rounded_scale) simp
  then have "rounded u 1 4 (fl (sqrt (fl (fl (?A + ?B) + ?C))) / 255)"
    by simp
  from err u _ _ _ this have "rounded u 1 (Suc 4) (fl (fl (sqrt (fl (fl (?A + ?B) + ?C))) / 255))"
    by (rule rounded_fl) simp_all
  then show ?thesis
    by (simp add: luminance_def)
qed

lemma five_roundings:
  fixes u :: real
  assumes u: "0 \<le> u" "u \<le> 1 / 100" and x: "rounded u 1 5 x"
  shows "\<bar>x - 1\<bar> \<le> 6 * u"
proof -
  have "1 + real 5 * (- u) \<le> (1 + (- u)) ^ 5"
    using u by (intro Bernoulli_inequality) simp
  then have lo: "1 - 5 * u \<le> (1 - u) ^ 5" by simp
  have e: "(1 + u) ^ 5 = 1 + 6 * u + u * (10 * u + 10 * u ^ 2 + 5 * u ^ 3 + u ^ 4 - 1)"
    by (simp add: eval_nat_numeral algebra_simps)
  have "u ^ 2 \<le> u" "u ^ 3 \<le> u" "u ^ 4 \<le> u"
    using u by (simp_all add: power_le_one_iff eval_nat_numeral mult_le_one mult_left_le)
  with u have "10 * u + 10 * u ^ 2 + 5 * u ^ 3 + u ^ 4 - 1 \<le> 0" by linarith
  with u(1) have "u * (10 * u + 10 * u ^ 2 + 5 * u ^ 3 + u ^ 4 - 1) \<le> 0"
    by (rule mult_nonneg_nonpos)
  with e have hi: "(1 + u) ^ 5 \<le> 1 + 6 * u" by linarith
  from x have "(1 - u) ^ 5 \<le> x" "x \<le> (1 + u) ^ 5"
    by (simp_all add: rounded_def)
  with lo hi u show ?thesis by (simp add: abs_le_iff)
qed


lemma getLuminance_Num:
  "getLuminance fl \<lparr>col_r = Num r, col_g = Num g, col_b = Num b\<rparr> = D (luminance fl r g b)"
  by (simp add: getLuminance_def)

text \<open>
  C9. Let the rounding \<open>fl\<close> of double arithmetic be monotone, keep 0 and have a relative
  error of at most \<open>u \<le> 1 / 100\<close> between \<open>1 / 100\<close> and \<open>100000\<close> (round-to-nearest
  has \<open>u = 2\<^sup>-\<^sup>5\<^sup>3\<close>). Then \<open>getLuminance\<close> does not decrease when any of the
  non-negative channels \<open>R\<close>, \<open>G\<close>, \<open>B\<close> grows (in particular when one grows and
  the other two are fixed), it is 0 for \<open>(0, 0, 0)\<close>, and for \<open>(255, 255, 255)\<close> it is
  within \<open>6 * u\<close> of 1.
\<close>

theorem luminance_properties:
  fixes u :: real
  assumes mono: "\<And>x y. x \<le> y \<Longrightarrow> fl x \<le> fl y" and zero: "fl 0 = 0"
    and err: "\<And>x. 1 / 100 \<le> x \<Longrightarrow> x \<le> 100000 \<Longrightarrow> \<bar>fl x - x\<bar> \<le> u * x"
    and u: "0 \<le> u" "u \<le> 1 / 100"
    and r: "0 \<le> r" "r \<le> r'" and g: "0 \<le> g" "g \<le> g'" and b: "0 \<le> b" "b \<le> b'"
  shows "d_ge (getLuminance fl \<lparr>col_r = Num r', col_g = Num g', col_b = Num b'\<rparr>)
              (getLuminance fl \<lparr>col_r = Num r, col_g = Num g, col_b = Num b\<rparr>)
     \<and> getLuminance fl \<lparr>col_r = Num 0, col_g = Num 0, col_b = Num 0\<rparr> = D 0
     \<and> (\<exists>l. getLuminance fl \<lparr>col_r = Num 255, col_g = Num 255, col_b = Num 255\<rparr> = D l
            \<and> \<bar>l - 1\<bar> \<le> 6 * u)"
proof -
  have "luminance fl r g b \<le> luminance fl r' g' b'"
    using mono zero r g b by (rule luminance_mono)
  moreover have "luminance fl 0 0 0 = 0"
    using zero by (rule luminance_zero)
  moreover have "\<bar>luminance fl 255 255 255 - 1\<bar> \<le> 6 * u"
    using u luminance_white_rounded [of fl u, OF err u] by (rule five_roundings)
  ultimately show ?thesis
    by (simp add: getLuminance_Num)
qed

text \<open>With exact arithmetic and \<open>u = 2\<^sup>-\<^sup>5\<^sup>3\<close>.\<close>

theorem luminance_properties_witness:
  "d_ge (getLuminance (\<lambda>x. x) \<lparr>col_r = Num 20, col_g = Num 7, col_b = Num 9\<rparr>)
        (getLuminance (\<lambda>x. x) \<lparr>col_r = Num 10, col_g = Num 7, col_b = Num 9\<rparr>)
   \<and> getLuminance (\<lambda>x. x) \<lparr>col_r = Num 0, col_g = Num 0, col_b = Num 0\<rparr> = D 0
   \<and> (\<exists>l. getLuminance (\<lambda>x. x) \<lparr>col_r = Num 255, col_g = Num 255, col_b = Num 255\<rparr> = D l
          \<and> \<bar>l - 1\<bar> \<le> 6 * (1 / 2 ^ 53))"
proof -
  have m: "\<And>x y :: real. x \<le> y \<Longrightarrow> (\<lambda>x. x) x \<le> (\<lambda>x. x) y" by simp
  have z: "(\<lambda>x :: real. x) 0 = 0" by simp
  have e: "\<And>x :: real. 1 / 100 \<le> x \<Longrightarrow> x \<le> 100000
      \<Longrightarrow> \<bar>(\<lambda>x. x) x - x\<bar> \<le> (1 / 2 ^ 53) * x"
    by simp
  have u: "(0 :: real) \<le> 1 / 2 ^ 53" "(1 :: real) / 2 ^ 53 \<le> 1 / 100" by simp_all
  have c: "(0 :: int) \<le> 10" "(10 :: int) \<le> 20" "(0 :: int) \<le> 7" "(7 :: int) \<le> 7"
    "(0 :: int) \<le> 9" "(9 :: int) \<le> 9" by simp_all
  show ?thesis
    by (rule luminance_properties [of "\<lambda>x. x" "1 / 2 ^ 53", OF m z e u c])
qed

section \<open>The serialiser on the images that compress builds\<close>

text \<open>
  \<open>compress\<close> serialises \<open>pack(boxify(image, boxSize))\<close>: the header fields of that
  packed image are \<open>boxSize\<close> and the numbers of tiles, and it has one box for every
  tile.
\<close>

lemma pack_boxify:
  assumes bs: "0 < bs"
  shows "\<exists>b. boxify img (Num bs) = Some b
     \<and> p_boxSize (pack fl b) = Num bs
     \<and> width (p_size (pack fl b)) = Num (int (i_width img) div bs)
     \<and> height (p_size (pack fl b)) = Num (int (i_height img) div bs)
     \<and> length (p_data (pack fl b)) = nat (int (i_width img) div bs) * nat (int (i_height img) div bs)"
  unfolding boxify_pos [OF bs] by (simp add: pack_def length_grid)

lemma tiles_bound:
  assumes "n \<le> 255" "m \<le> 255"
  shows "nat n * nat m \<le> 65025"
proof -
  from assms have "nat n \<le> 255" "nat m \<le> 255" by simp_all
  then have "nat n * nat m \<le> 255 * 255" by (rule mult_le_mono)
  then show ?thesis by simp
qed

text \<open>
  A packed image that \<open>compress\<close> built stops the serialiser exactly when a header field
  is above 255; its box count is the product of \<open>size.width\<close> and \<open>size.height\<close>, so
  a count that the three count bytes cannot hold is among these cases.
\<close>

lemma pipeline_guard:
  assumes bs: "0 < bs"
  shows "\<exists>b. boxify img (Num bs) = Some b
     \<and> p_boxSize (pack fl b) = Num bs
     \<and> width (p_size (pack fl b)) = Num (int (i_width img) div bs)
     \<and> height (p_size (pack fl b)) = Num (int (i_height img) div bs)
     \<and> int (length (p_data (pack fl b))) = (int (i_width img) div bs) * (int (i_height img) div bs)
     \<and> ((serialiseFromPacked (pack fl b) = Inl FieldOverflow)
          = (255 < bs \<or> 255 < int (i_width img) div bs \<or> 255 < int (i_height img) div bs))
     \<and> ((\<exists>bytes. serialiseFromPacked (pack fl b) = Inr bytes)
          = (bs \<le> 255 \<and> int (i_width img) div bs \<le> 255 \<and> int (i_height img) div bs \<le> 255))
     \<and> (int (i_width img) div bs \<le> 255 \<and> int (i_height img) div bs \<le> 255
          \<longrightarrow> length (p_data (pack fl b)) \<le> 65025)"
proof -
  define n where "n = int (i_width img) div bs"
  define m where "m = int (i_height img) div bs"
  have nm: "0 \<le> n" "0 \<le> m"
    using bs by (simp_all add: n_def m_def pos_imp_zdiv_nonneg_iff)
  from pack_boxify [OF bs, of img fl] obtain b where b: "boxify img (Num bs) = Some b"
    and f: "p_boxSize (pack fl b) = Num bs" "width (p_size (pack fl b)) = Num n"
      "height (p_size (pack fl b)) = Num m"
    and l: "length (p_data (pack fl b)) = nat n * nat m"
    unfolding n_def m_def by blast
  from l nm have l': "int (length (p_data (pack fl b))) = n * m"
    by (simp add: nat_mult_distrib)
  have g: "(serialiseFromPacked (pack fl b) = Inl FieldOverflow) = (255 < bs \<or> 255 < n \<or> 255 < m)"
    by (simp add: serialiseFromPacked_def f)
  have r: "(\<exists>bytes. serialiseFromPacked (pack fl b) = Inr bytes) = (bs \<le> 255 \<and> n \<le> 255 \<and> m \<le> 255)"
    by (auto simp: serialiseFromPacked_def f)
  have c: "length (p_data (pack fl b)) \<le> 65025" if "n \<le> 255" "m \<le> 255"
    unfolding l using that by (rule tiles_bound)
  from b f l' g r c show ?thesis
    unfolding n_def [symmetric] m_def [symmetric] by blast
qed

text \<open>
  C7. For the packed image that \<open>compress\<close> hands to the serialiser (\<open>pack\<close> of
  \<open>boxify\<close> of an image, for a positive \<open>boxSize\<close>), whose box count is
  \<open>size.width * size.height\<close>: \<open>serialiseFromPacked\<close> stops with the overflow failure,
  returning no bytes, exactly when \<open>boxSize\<close>, \<open>size.width\<close> or \<open>size.height\<close> is
  above 255 or the box count is above \<open>2 ^ 24 - 1\<close>, and returns bytes exactly when all
  four are in range.
\<close>

theorem overflow_guard:
  assumes bs: "0 < bs"
  shows "\<exists>b. boxify img (Num bs) = Some b
     \<and> p_boxSize (pack fl b) = Num bs
     \<and> width (p_size (pack fl b)) = Num (int (i_width img) div bs)
     \<and> height (p_size (pack fl b)) = Num (int (i_height img) div bs)
     \<and> int (length (p_data (pack fl b))) = (int (i_width img) div bs) * (int (i_height img) div bs)
     \<and> ((serialiseFromPacked (pack fl b) = Inl FieldOverflow)
          = (255 < bs \<or> 255 < int (i_width img) div bs \<or> 255 < int (i_height img) div bs
             \<or> 2 ^ 24 - 1 < length (p_data (pack fl b))))
     \<and> ((\<exists>bytes. serialiseFromPacked (pack fl b) = Inr bytes)
          = (bs \<le> 255 \<and> int (i_width img) div bs \<le> 255 \<and> int (i_height img) div bs \<le> 255
             \<and> length (p_data (pack fl b)) \<le> 2 ^ 24 - 1))"
proof -
  from pipeline_guard [OF bs, of img fl] obtain b where b: "boxify img (Num bs) = Some b"
    and f: "p_boxSize (pack fl b) = Num bs"
      "width (p_size (pack fl b)) = Num (int (i_width img) div bs)"
      "height (p_size (pack fl b)) = Num (int (i_height img) div bs)"
      "int (length (p_data (pack fl b))) = (int (i_width img) div bs) * (int (i_height img) div bs)"
    and g: "(serialiseFromPacked (pack fl b) = Inl FieldOverflow)
          = (255 < bs \<or> 255 < int (i_width img) div bs \<or> 255 < int (i_height img) div bs)"
    and r: "(\<exists>bytes. serialiseFromPacked (pack fl b) = Inr bytes)
          = (bs \<le> 255 \<and> int (i_width img) div bs \<le> 255 \<and> int (i_height img) div bs \<le> 255)"
    and c: "int (i_width img) div bs \<le> 255 \<and> int (i_height img) div bs \<le> 255
          \<longrightarrow> length (p_data (pack fl b)) \<le> 65025"
    by blast
  have g': "(serialiseFromPacked (pack fl b) = Inl FieldOverflow)
          = (255 < bs \<or> 255 < int (i_width img) div bs \<or> 255 < int (i_height img) div bs
             \<or> 2 ^ 24 - 1 < length (p_data (pack fl b)))"
  proof (cases "bs \<le> 255 \<and> int (i_width img) div bs \<le> 255 \<and> int (i_height img) div bs \<le> 255")
    case True
    with c have "length (p_data (pack fl b)) \<le> 65025" by blast
    then have "\<not> 2 ^ 24 - 1 < length (p_data (pack fl b))" by simp
    with g show ?thesis by blast
  next
    case False
    with g show ?thesis by auto
  qed
  have r': "(\<exists>bytes. serialiseFromPacked (pack fl b) = Inr bytes)
          = (bs \<le> 255 \<and> int (i_width img) div bs \<le> 255 \<and> int (i_height img) div bs \<le> 255
             \<and> length (p_data (pack fl b)) \<le> 2 ^ 24 - 1)"
  proof (cases "bs \<le> 255 \<and> int (i_width img) div bs \<le> 255 \<and> int (i_height img) div bs \<le> 255")
    case True
    with c have "length (p_data (pack fl b)) \<le> 65025" by blast
    then have "length (p_data (pack fl b)) \<le> 2 ^ 24 - 1" by simp
    with r True show ?thesis by blast
  next
    case False
    with r show ?thesis by blast
  qed
  from b f g' r' show ?thesis by blast
qed

lemma wide_size: "i_width wide_image = 256" "i_height wide_image = 1"
  by (simp_all only: wide_image_def image.select_convs)

lemma tall_size: "i_width tall_image = 4097" "i_height tall_image = 4096"
  by (simp_all only: tall_image_def image.select_convs)

text \<open>
  The checkerboard with \<open>boxSize = 2\<close> is serialised; an image of \<open>256 \<times> 1\<close> pixels
  with \<open>boxSize = 1\<close> has 256 tiles in a row and stops the serialiser.
\<close>

theorem overflow_guard_witness:
  "(\<exists>b. boxify checker_image (Num 2) = Some b
      \<and> (\<exists>bytes. serialiseFromPacked (pack (\<lambda>x. x) b) = Inr bytes))
   \<and> (\<exists>b. boxify wide_image (Num 1) = Some b
      \<and> width (p_size (pack (\<lambda>x. x) b)) = Num 256
      \<and> serialiseFromPacked (pack (\<lambda>x. x) b) = Inl FieldOverflow)"
proof -
  have c: "int (i_width checker_image) div 2 = 1" "int (i_height checker_image) div 2 = 1"
    by (simp_all add: checker_image_def)
  have "\<exists>b. boxify checker_image (Num 2) = Some b
      \<and> (\<exists>bytes. serialiseFromPacked (pack (\<lambda>x. x) b) = Inr bytes)"
    using overflow_guard [of 2 checker_image "\<lambda>x. x"] unfolding c by auto
  moreover have "\<exists>b. boxify wide_image (Num 1) = Some b
      \<and> width (p_size (pack (\<lambda>x. x) b)) = Num 256
      \<and> serialiseFromPacked (pack (\<lambda>x. x) b) = Inl FieldOverflow"
    using overflow_guard [of 1 wide_image "\<lambda>x. x"] unfolding wide_size by auto
  ultimately show ?thesis by blast
qed

text \<open>On these images the coordinates of every box fit in one byte once the guard has passed.\<close>

lemma pipeline_coordinates:
  assumes bs: "0 < bs" and w: "int (i_width img) div bs \<le> 255" and h: "int (i_height img) div bs \<le> 255"
  shows "\<exists>b. boxify img (Num bs) = Some b
      \<and> list_all (\<lambda>box. is_byte (pb_x box) \<and> is_byte (pb_y box)) (p_data (pack fl b))"
proof -
  have "is_byte (pb_x (pack_box fl (make_box img (Num bs) (Num (int i * bs)) (Num (int j * bs)))))
      \<and> is_byte (pb_y (pack_box fl (make_box img (Num bs) (Num (int i * bs)) (Num (int j * bs)))))"
    if "i < nat (int (i_width img) div bs)" "j < nat (int (i_height img) div bs)" for i j
    using that w h bs by (simp add: pack_box_def make_box_coords [OF bs]) arith
  then show ?thesis
    unfolding boxify_pos [OF bs] by (auto simp: pack_def list_all_iff)
qed

text \<open>
  C10 (as amended). For the packed image that \<open>compress\<close> hands to the serialiser:
  whenever \<open>serialiseFromPacked\<close> returns bytes, the three bytes at offsets 13 to 15,
  read as a big-endian number, are the number of boxes, which is at most \<open>255 * 255\<close>
  and so equals itself modulo \<open>2 ^ 24\<close>; the bytes from offset 16 on are the records of
  all the boxes, 16 bytes plus \<open>8 + boxSize\<^sup>2\<close> for every box in all. A list of more than
  \<open>2 ^ 24 - 1\<close> boxes stops the serialiser with the overflow failure: its count is never
  written.
\<close>

theorem count_field:
  assumes bs: "0 < bs"
  shows "\<exists>b. boxify img (Num bs) = Some b
     \<and> (\<forall>bytes. serialiseFromPacked (pack fl b) = Inr bytes \<longrightarrow>
          uint (bytes ! 13) * 65536 + uint (bytes ! 14) * 256 + uint (bytes ! 15)
             = int (length (p_data (pack fl b)))
          \<and> int (length (p_data (pack fl b))) mod 2 ^ 24 = int (length (p_data (pack fl b)))
          \<and> length (p_data (pack fl b)) \<le> 255 * 255
          \<and> drop 16 bytes = concat (map (map toUint8 \<circ> box_values) (p_data (pack fl b)))
          \<and> length bytes = 16 + length (p_data (pack fl b)) * (8 + nat bs * nat bs))
     \<and> (2 ^ 24 - 1 < length (p_data (pack fl b)) \<longrightarrow>
          serialiseFromPacked (pack fl b) = Inl FieldOverflow)"
proof -
  from pipeline_guard [OF bs, of img fl] obtain b where b: "boxify img (Num bs) = Some b"
    and g: "(serialiseFromPacked (pack fl b) = Inl FieldOverflow)
          = (255 < bs \<or> 255 < int (i_width img) div bs \<or> 255 < int (i_height img) div bs)"
    and r: "(\<exists>bytes. serialiseFromPacked (pack fl b) = Inr bytes)
          = (bs \<le> 255 \<and> int (i_width img) div bs \<le> 255 \<and> int (i_height img) div bs \<le> 255)"
    and c: "int (i_width img) div bs \<le> 255 \<and> int (i_height img) div bs \<le> 255
          \<longrightarrow> length (p_data (pack fl b)) \<le> 65025"
    by blast
  let ?p = "pack fl b"
  have k: "\<forall>box \<in> set (p_data ?p). length (pb_data box) = nat bs * nat bs"
    using b bs unfolding boxify_pos [OF bs]
    by (auto simp: pack_def pack_box_def length_make_box)
  have 1: "uint (bytes ! 13) * 65536 + uint (bytes ! 14) * 256 + uint (bytes ! 15)
             = int (length (p_data ?p))
          \<and> int (length (p_data ?p)) mod 2 ^ 24 = int (length (p_data ?p))
          \<and> length (p_data ?p) \<le> 255 * 255
          \<and> drop 16 bytes = concat (map (map toUint8 \<circ> box_values) (p_data ?p))
          \<and> length bytes = 16 + length (p_data ?p) * (8 + nat bs * nat bs)"
    if s: "serialiseFromPacked ?p = Inr bytes" for bytes
  proof -
    from s r c have n: "length (p_data ?p) \<le> 65025" by blast
    then have m: "int (length (p_data ?p)) mod 2 ^ 24 = int (length (p_data ?p))"
      by simp
    note e = serialise_Inr [OF s]
    have d: "drop 16 bytes = concat (map (map toUint8 \<circ> box_values) (p_data ?p))"
      by (subst e) simp
    have "length bytes = 16 + length (concat (map (map toUint8 \<circ> box_values) (p_data ?p)))"
      by (subst e) simp
    then have "length bytes = 16 + length (p_data ?p) * (8 + nat bs * nat bs)"
      by (simp only: records_length_uniform [OF k])
    with count_bytes_value [OF s] m n d show ?thesis
      by simp
  qed
  have 2: "serialiseFromPacked ?p = Inl FieldOverflow" if "2 ^ 24 - 1 < length (p_data ?p)"
  proof (rule ccontr)
    assume "serialiseFromPacked ?p \<noteq> Inl FieldOverflow"
    with g c have "length (p_data ?p) \<le> 65025" by auto
    with that show False by simp
  qed
  from b 1 2 show ?thesis by blast
qed

text \<open>The checkerboard with \<open>boxSize = 2\<close>: one box, count bytes 0, 0, 1, 28 bytes in all.\<close>

theorem count_field_witness:
  "\<exists>bytes. serialiseFromPacked checker_packed = Inr bytes
     \<and> uint (bytes ! 13) * 65536 + uint (bytes ! 14) * 256 + uint (bytes ! 15) = 1
     \<and> length (p_data checker_packed) = 1
     \<and> length bytes = 28"
proof -
  have s: "\<exists>bytes. serialiseFromPacked checker_packed = Inr bytes"
    by (simp add: serialiseFromPacked_def checker_packed_def)
  have l: "length (p_data checker_packed) = 1"
    by (simp add: checker_packed_def)
  from count_field [of 2 checker_image "\<lambda>x. x"] s l show ?thesis
    unfolding boxify_checker by (auto simp: pack_checker)
qed

text \<open>
  C10 as stated fails: an image of \<open>4097 \<times> 4096\<close> pixels with \<open>boxSize = 1\<close> gives a
  list of \<open>4097 * 4096\<close> boxes, more than \<open>2 ^ 24 - 1\<close>; the serialiser stops with the
  overflow failure, so no count is written and no record is emitted.
\<close>

theorem count_field_counterexample:
  "\<exists>b. boxify tall_image (Num 1) = Some b
     \<and> 2 ^ 24 - 1 < length (p_data (pack (\<lambda>x. x) b))
     \<and> width (p_size (pack (\<lambda>x. x) b)) = Num 4097
     \<and> serialiseFromPacked (pack (\<lambda>x. x) b) = Inl FieldOverflow"
proof -
  from pipeline_guard [of 1 tall_image "\<lambda>x. x"] obtain b where b: "boxify tall_image (Num 1) = Some b"
    and w: "width (p_size (pack (\<lambda>x. x) b)) = Num 4097"
    and l: "int (length (p_data (pack (\<lambda>x. x) b))) = 4097 * 4096"
    and g: "serialiseFromPacked (pack (\<lambda>x. x) b) = Inl FieldOverflow"
    unfolding tall_size by auto
  from l have "2 ^ 24 - 1 < length (p_data (pack (\<lambda>x. x) b))"
    by simp
  with b w g show ?thesis by blast
qed

end
